theory Spec2Isabelle
  imports Complex_Main "HOL-Library.Char_ord" "HOL-Library.List_Lexorder" "HOL-Library.AList"
begin

section \<open>JavaScript strings\<close>

text \<open>
  A JavaScript string is a sequence of code units, compared with \<open><\<close> lexicographically
  by code unit. It is modelled as a \<open>string\<close> (a list of characters with codes 0..255, the
  Latin-1 range), ordered by \<open>HOL-Library.List_Lexorder\<close> over \<open>HOL-Library.Char_ord\<close>.
  The library functions the indexer calls are written out for that range.
\<close>

definition lowerChar :: "char \<Rightarrow> char" where
  "lowerChar c =
     (let n = (of_char c :: nat)
      in if (65 \<le> n \<and> n \<le> 90) \<or> (192 \<le> n \<and> n \<le> 222 \<and> n \<noteq> 215)
         then char_of (n + 32) else c)"

definition toLowerCase :: "string \<Rightarrow> string" where
  "toLowerCase s = map lowerChar s"

definition isWhiteSpace :: "char \<Rightarrow> bool" where
  "isWhiteSpace c = ((of_char c :: nat) \<in> {9, 10, 11, 12, 13, 32, 160})"

definition trim :: "string \<Rightarrow> string" where
  "trim s = rev (dropWhile isWhiteSpace (rev (dropWhile isWhiteSpace s)))"

definition startsWith :: "string \<Rightarrow> string \<Rightarrow> bool" where
  "startsWith s p = (take (length p) s = p)"

definition endsWith :: "string \<Rightarrow> string \<Rightarrow> bool" where
  "endsWith s p = (length p \<le> length s \<and> drop (length s - length p) s = p)"

text \<open>\<open>s.split('/').pop()\<close>: the segment after the last slash (all of \<open>s\<close> without one).\<close>

definition lastSegment :: "string \<Rightarrow> string" where
  "lastSegment s = rev (takeWhile (\<lambda>c. c \<noteq> CHR ''/'') (rev s))"

section \<open>The graph indexer (graphIndexer.ts)\<close>

subsection \<open>Data\<close>

record Note =
  note_id :: string
  note_title :: string
  note_content :: string

datatype link_kind = Wikilink | Mdlink

datatype edge_kind = Link link_kind | Backlink

record link =
  link_target :: string
  link_type :: link_kind

record graph_edge =
  edge_from :: string
  edge_to :: string
  edge_type :: edge_kind

record graph_node =
  node_id :: string
  node_title :: string
  node_size :: real
  node_tags :: "string list"
  node_degree :: nat
  node_color :: string

record graph_data =
  nodes :: "graph_node list"
  edges :: "graph_edge list"

text \<open>
  The three regular expressions are fields of the indexer object and carry the \<open>g\<close> flag,
  so each holds a \<open>lastIndex\<close> that survives from one call to the next.
\<close>

record indexer =
  wikilinkLastIndex :: nat
  mdLinkLastIndex :: nat
  tagLastIndex :: nat

definition newIndexer :: indexer where
  "newIndexer = \<lparr>wikilinkLastIndex = 0, mdLinkLastIndex = 0, tagLastIndex = 0\<rparr>"

subsection \<open>The regular expressions\<close>

text \<open>
  A matcher takes the text from a start position on and returns the first capture group
  and the length of the match there. \<open>searchFrom\<close> finds the leftmost start position with
  a match, and \<open>regexExec\<close> is \<open>RegExp.prototype.exec\<close> of a global expression: it searches
  from \<open>lastIndex\<close>, sets \<open>lastIndex\<close> to the end of the match, and resets it to 0 when
  there is none.
\<close>

type_synonym matcher = "string \<Rightarrow> (string \<times> nat) option"

fun searchFrom :: "matcher \<Rightarrow> string \<Rightarrow> (nat \<times> string \<times> nat) option" where
  "searchFrom m [] = None"
| "searchFrom m (c # cs) =
     (case m (c # cs) of
        Some (g, n) \<Rightarrow> Some (0, g, n)
      | None \<Rightarrow> (case searchFrom m cs of
                   None \<Rightarrow> None
                 | Some (k, g, n) \<Rightarrow> Some (Suc k, g, n)))"

definition regexExec :: "matcher \<Rightarrow> string \<Rightarrow> nat \<Rightarrow> string option \<times> nat" where
  "regexExec m s lastIndex =
     (if length s < lastIndex then (None, 0)
      else case searchFrom m (drop lastIndex s) of
             None \<Rightarrow> (None, 0)
           | Some (k, g, n) \<Rightarrow> (Some g, lastIndex + k + n))"

text \<open>
  \<open>/\[\[([^\]|#]+)(?:#[^\]|]+)?(?:\|[^\]]+)?\]\]/\<close>. Every quantified class is followed by a
  character outside the class, so the greedy choice is the only one that can match and
  no backtracking is needed.
\<close>

definition wikilinkRegex :: matcher where
  "wikilinkRegex s =
     (if \<not> startsWith s ''[['' then None
      else
        let r0 = drop 2 s;
            g1 = takeWhile (\<lambda>c. c \<noteq> CHR '']'' \<and> c \<noteq> CHR ''|'' \<and> c \<noteq> CHR ''#'') r0;
            r1 = drop (length g1) r0
        in if g1 = [] then None
           else
             let g2 = (if startsWith r1 ''#''
                       then takeWhile (\<lambda>c. c \<noteq> CHR '']'' \<and> c \<noteq> CHR ''|'') (drop 1 r1) else []);
                 n2 = (if g2 = [] then 0 else 1 + length g2);
                 r2 = drop n2 r1;
                 g3 = (if startsWith r2 ''|''
                       then takeWhile (\<lambda>c. c \<noteq> CHR '']'') (drop 1 r2) else []);
                 n3 = (if g3 = [] then 0 else 1 + length g3);
                 r3 = drop n3 r2
             in if startsWith r3 '']]'' then Some (g1, 2 + length g1 + n2 + n3 + 2)
                else None)"

text \<open>
  \<open>/\[.*?\]\(([^)]+)\)/\<close>. \<open>mdLinkTail\<close> is the part after the lazy \<open>.*?\<close>, which grows one
  character at a time (never over a line terminator) until the tail matches.
\<close>

definition isLineTerminator :: "char \<Rightarrow> bool" where
  "isLineTerminator c = ((of_char c :: nat) \<in> {10, 13})"

definition mdLinkTail :: matcher where
  "mdLinkTail s =
     (if \<not> startsWith s ''](''  then None
      else
        let g1 = takeWhile (\<lambda>c. c \<noteq> CHR '')'') (drop 2 s)
        in if g1 \<noteq> [] \<and> startsWith (drop (2 + length g1) s) '')''
           then Some (g1, 2 + length g1 + 1) else None)"

fun mdLinkLazy :: "string \<Rightarrow> nat \<Rightarrow> (string \<times> nat) option" where
  "mdLinkLazy [] k = None"
| "mdLinkLazy (c # cs) k =
     (case mdLinkTail (c # cs) of
        Some (g, n) \<Rightarrow> Some (g, k + n)
      | None \<Rightarrow> if isLineTerminator c then None else mdLinkLazy cs (Suc k))"

definition mdLinkRegex :: matcher where
  "mdLinkRegex s = (if startsWith s ''['' then mdLinkLazy (drop 1 s) 1 else None)"

text \<open>\<open>/#[\w\-]+/\<close>, used through \<open>String.prototype.match\<close>, which returns every match.\<close>

definition isTagChar :: "char \<Rightarrow> bool" where
  "isTagChar c =
     (let n = (of_char c :: nat)
      in (48 \<le> n \<and> n \<le> 57) \<or> (65 \<le> n \<and> n \<le> 90) \<or> (97 \<le> n \<and> n \<le> 122)
         \<or> c = CHR ''_'' \<or> c = CHR ''-'')"

function matchAllTags :: "string \<Rightarrow> string list" where
  "matchAllTags [] = []"
| "matchAllTags (c # cs) =
     (if c = CHR ''#'' \<and> takeWhile isTagChar cs \<noteq> []
      then (c # takeWhile isTagChar cs) # matchAllTags (dropWhile isTagChar cs)
      else matchAllTags cs)"
  by pat_completeness auto
termination
  by (relation "measure length") (auto simp: length_dropWhile_le less_Suc_eq_le)

subsection \<open>extractLinks\<close>

definition pushWikilink :: "string \<Rightarrow> link list \<Rightarrow> link list" where
  "pushWikilink g links =
     (let target = trim g
      in if target \<noteq> [] then links @ [\<lparr>link_target = target, link_type = Wikilink\<rparr>]
         else links)"

definition pushMdlink :: "string \<Rightarrow> link list \<Rightarrow> link list" where
  "pushMdlink g links =
     (let target = trim g
      in if target \<noteq> [] \<and> \<not> startsWith target ''http://'' \<and> \<not> startsWith target ''https://''
         then links @ [\<lparr>link_target = target, link_type = Mdlink\<rparr>]
         else links)"

lemma startsWith_length:
  assumes "startsWith s p"
  shows "length p \<le> length s"
proof -
  from assms have "length (take (length p) s) = length p"
    by (simp only: startsWith_def)
  then show ?thesis by simp
qed

lemma startsWith_drop_length:
  assumes "startsWith (drop n s) p" and "p \<noteq> []"
  shows "n + length p \<le> length s"
proof -
  from startsWith_length [OF assms(1)] have "length p \<le> length s - n" by simp
  moreover from assms(2) have "0 < length p" by simp
  ultimately show ?thesis by linarith
qed

lemma searchFrom_bounds:
  assumes "\<forall>ys h l. m ys = Some (h, l) \<longrightarrow> 0 < l \<and> l \<le> length ys"
  shows "searchFrom m xs = Some (k, g, n) \<Longrightarrow> 0 < n \<and> k + n \<le> length xs"
proof (induction xs arbitrary: k)
  case Nil
  then show ?case by simp
next
  case (Cons c cs)
  show ?case
  proof (cases "m (c # cs)")
    case (Some r)
    then show ?thesis using Cons.prems assms [rule_format, of "c # cs" g n]
      by (cases r) auto
  next
    case None
    then obtain k' where "searchFrom m cs = Some (k', g, n)" and "k = Suc k'"
      using Cons.prems by (auto split: option.splits)
    then show ?thesis using Cons.IH [of k'] by simp
  qed
qed

lemma regexExec_progress:
  assumes "\<forall>ys h l. m ys = Some (h, l) \<longrightarrow> 0 < l \<and> l \<le> length ys"
    and "regexExec m s i = (Some g, j)"
  shows "i < j \<and> j \<le> length s"
proof -
  from assms(2) obtain k n where le: "i \<le> length s"
    and sf: "searchFrom m (drop i s) = Some (k, g, n)" and j: "j = i + k + n"
    by (auto simp: regexExec_def split: if_splits option.splits)
  from searchFrom_bounds [OF assms(1) sf] le j show ?thesis by auto
qed

lemma regexExec_None: "regexExec m s i = (None, j) \<Longrightarrow> j = 0"
  by (auto simp: regexExec_def split: if_splits option.splits)

lemma wikilinkRegex_bounds:
  assumes "wikilinkRegex xs = Some (g, n)"
  shows "0 < n \<and> n \<le> length xs"
proof -
  from assms obtain k where n: "n = k + 2" and sw: "startsWith (drop k xs) '']]''"
    by (auto simp: wikilinkRegex_def Let_def add.commute add.left_commute
        split: if_splits)
  from startsWith_drop_length [OF sw] n show ?thesis by simp
qed

lemma mdLinkTail_bounds:
  assumes "mdLinkTail xs = Some (g, n)"
  shows "0 < n \<and> n \<le> length xs"
proof -
  from assms obtain k where n: "n = k + 1" and sw: "startsWith (drop k xs) '')''"
    by (auto simp: mdLinkTail_def Let_def split: if_splits)
  from startsWith_drop_length [OF sw] n show ?thesis by simp
qed

lemma wikilinkRegex_bounded:
  "\<forall>ys h l. wikilinkRegex ys = Some (h, l) \<longrightarrow> 0 < l \<and> l \<le> length ys"
  using wikilinkRegex_bounds by blast

lemma mdLinkLazy_bounds: "mdLinkLazy xs k = Some (g, n) \<Longrightarrow> k < n \<and> n \<le> k + length xs"
proof (induction xs arbitrary: k)
  case Nil
  then show ?case by simp
next
  case (Cons c cs)
  show ?case
  proof (cases "mdLinkTail (c # cs)")
    case (Some r)
    then show ?thesis using Cons.prems mdLinkTail_bounds [of "c # cs" g "snd r"]
      by (cases r) auto
  next
    case None
    then have "mdLinkLazy cs (Suc k) = Some (g, n)"
      using Cons.prems by (auto split: if_splits)
    from Cons.IH [OF this] show ?thesis by simp
  qed
qed

lemma mdLinkRegex_bounds: "mdLinkRegex xs = Some (g, n) \<Longrightarrow> 0 < n \<and> n \<le> length xs"
proof -
  assume a: "mdLinkRegex xs = Some (g, n)"
  then have sw: "startsWith xs ''[''" and l: "mdLinkLazy (drop 1 xs) 1 = Some (g, n)"
    by (auto simp: mdLinkRegex_def split: if_splits)
  from startsWith_length [OF sw] have "1 \<le> length xs" by simp
  with mdLinkLazy_bounds [OF l] show ?thesis by auto
qed

lemma mdLinkRegex_bounded:
  "\<forall>ys h l. mdLinkRegex ys = Some (h, l) \<longrightarrow> 0 < l \<and> l \<le> length ys"
  using mdLinkRegex_bounds by blast

function wikilinkLoop :: "string \<Rightarrow> nat \<Rightarrow> link list \<Rightarrow> link list \<times> nat" where
  "wikilinkLoop content lastIndex links =
     (case regexExec wikilinkRegex content lastIndex of
        (None, lastIndex') \<Rightarrow> (links, lastIndex')
      | (Some g, lastIndex') \<Rightarrow> wikilinkLoop content lastIndex' (pushWikilink g links))"
  by pat_completeness auto
termination
proof (relation "measure (\<lambda>(content, lastIndex, links). Suc (length content) - lastIndex)")
  show "wf (measure (\<lambda>(content, lastIndex, links). Suc (length content) - lastIndex))"
    by simp
next
  fix content :: string and lastIndex :: nat and links :: "link list"
    and x1 :: "string option" and x2 :: nat and g :: string
  assume "(x1, x2) = regexExec wikilinkRegex content lastIndex" and "x1 = Some g"
  then have "regexExec wikilinkRegex content lastIndex = (Some g, x2)" by simp
  from regexExec_progress [OF wikilinkRegex_bounded this]
  show "((content, x2, pushWikilink g links), (content, lastIndex, links))
          \<in> measure (\<lambda>(content, lastIndex, links). Suc (length content) - lastIndex)"
    by auto
qed

function mdLinkLoop :: "string \<Rightarrow> nat \<Rightarrow> link list \<Rightarrow> link list \<times> nat" where
  "mdLinkLoop content lastIndex links =
     (case regexExec mdLinkRegex content lastIndex of
        (None, lastIndex') \<Rightarrow> (links, lastIndex')
      | (Some g, lastIndex') \<Rightarrow> mdLinkLoop content lastIndex' (pushMdlink g links))"
  by pat_completeness auto
termination
proof (relation "measure (\<lambda>(content, lastIndex, links). Suc (length content) - lastIndex)")
  show "wf (measure (\<lambda>(content, lastIndex, links). Suc (length content) - lastIndex))"
    by simp
next
  fix content :: string and lastIndex :: nat and links :: "link list"
    and x1 :: "string option" and x2 :: nat and g :: string
  assume "(x1, x2) = regexExec mdLinkRegex content lastIndex" and "x1 = Some g"
  then have "regexExec mdLinkRegex content lastIndex = (Some g, x2)" by simp
  from regexExec_progress [OF mdLinkRegex_bounded this]
  show "((content, x2, pushMdlink g links), (content, lastIndex, links))
          \<in> measure (\<lambda>(content, lastIndex, links). Suc (length content) - lastIndex)"
    by auto
qed

text \<open>
  The wikilink loop starts from whatever \<open>lastIndex\<close> the expression holds; the markdown
  loop resets it to 0 first.
\<close>

definition extractLinks :: "indexer \<Rightarrow> string \<Rightarrow> link list \<times> indexer" where
  "extractLinks ix content =
     (let (links1, wl) = wikilinkLoop content (wikilinkLastIndex ix) [];
          (links2, ml) = mdLinkLoop content 0 links1
      in (links2, ix\<lparr>wikilinkLastIndex := wl, mdLinkLastIndex := ml\<rparr>))"

subsection \<open>resolveLink\<close>

definition stripMd :: "string \<Rightarrow> string" where
  "stripMd s = (if endsWith s ''.md'' then take (length s - 3) s else s)"

definition stripDotSlash :: "string \<Rightarrow> string" where
  "stripDotSlash s = (if startsWith s ''./'' then drop 2 s else s)"

definition resolveLink :: "link \<Rightarrow> (string \<rightharpoonup> string) \<Rightarrow> (string \<rightharpoonup> Note) \<Rightarrow> string option" where
  "resolveLink lnk titleMap noteMap =
     (let target = link_target lnk
      in if noteMap target \<noteq> None then Some target
         else
           let titleLower = toLowerCase target
           in if titleMap titleLower \<noteq> None then titleMap titleLower
              else
                let cleaned = stripDotSlash (stripMd target);
                    cleanedLower = toLowerCase cleaned
                in if titleMap cleanedLower \<noteq> None then titleMap cleanedLower
                   else
                     let basename = (if lastSegment cleaned \<noteq> [] then lastSegment cleaned
                                     else cleaned);
                         basenameLower = toLowerCase basename
                     in if titleMap basenameLower \<noteq> None then titleMap basenameLower
                        else None)"

subsection \<open>extractTags, getColorForNode, deduplicateEdges\<close>

text \<open>\<open>[...new Set(xs)]\<close> keeps the first occurrence of every element, in order.\<close>

definition setOrder :: "'a list \<Rightarrow> 'a list" where
  "setOrder xs = rev (remdups (rev xs))"

definition extractTags :: "indexer \<Rightarrow> string \<Rightarrow> string list \<times> indexer" where
  "extractTags ix content =
     (setOrder (map (drop 1) (matchAllTags content)), ix\<lparr>tagLastIndex := 0\<rparr>)"

definition getColorForNode :: "string list \<Rightarrow> nat \<Rightarrow> string" where
  "getColorForNode tags degree =
     (if degree \<ge> 10 then ''#5a63e9''
      else if degree \<ge> 5 then ''#8B92FF''
      else if degree \<ge> 2 then ''#A8AEFF''
      else if degree = 0 then ''#6B7280''
      else ''#9CA3AF'')"

definition edgeKey :: "graph_edge \<Rightarrow> string" where
  "edgeKey e =
     (if edge_from e < edge_to e then edge_from e @ ''->'' @ edge_to e
      else edge_to e @ ''->'' @ edge_from e)"

definition dedupStep :: "graph_edge \<Rightarrow> string set \<times> graph_edge list \<Rightarrow> string set \<times> graph_edge list" where
  "dedupStep e st =
     (let (seen, unique) = st; key = edgeKey e
      in if key \<notin> seen then (insert key seen, unique @ [e]) else (seen, unique))"

definition deduplicateEdges :: "graph_edge list \<Rightarrow> graph_edge list" where
  "deduplicateEdges es = snd (fold dedupStep es ({}, []))"

subsection \<open>indexGraph\<close>

definition degreeOf :: "(string \<rightharpoonup> nat) \<Rightarrow> string \<Rightarrow> nat" where
  "degreeOf nodeDegree k = (case nodeDegree k of None \<Rightarrow> 0 | Some d \<Rightarrow> d)"

text \<open>
  The body of \<open>links.forEach\<close>. A resolved id that is the empty string fails the test
  \<open>targetId && ...\<close> like \<open>null\<close> does.
\<close>

definition indexLink ::
  "(string \<rightharpoonup> string) \<Rightarrow> (string \<rightharpoonup> Note) \<Rightarrow> Note \<Rightarrow> link
     \<Rightarrow> graph_edge list \<times> (string \<rightharpoonup> nat) \<Rightarrow> graph_edge list \<times> (string \<rightharpoonup> nat)" where
  "indexLink titleMap noteMap n lnk st =
     (let (es, nodeDegree) = st
      in case resolveLink lnk titleMap noteMap of
           None \<Rightarrow> (es, nodeDegree)
         | Some targetId \<Rightarrow>
             if targetId \<noteq> [] \<and> targetId \<noteq> note_id n then
               let es1 = es @ [\<lparr>edge_from = note_id n, edge_to = targetId,
                                edge_type = Link (link_type lnk)\<rparr>];
                   es2 = es1 @ [\<lparr>edge_from = targetId, edge_to = note_id n,
                                 edge_type = Backlink\<rparr>];
                   nodeDegree1 = nodeDegree(note_id n \<mapsto> degreeOf nodeDegree (note_id n) + 1);
                   nodeDegree2 = nodeDegree1(targetId \<mapsto> degreeOf nodeDegree1 targetId + 1)
               in (es2, nodeDegree2)
             else (es, nodeDegree))"

text \<open>The body of the third \<open>notes.forEach\<close>.\<close>

definition indexNote ::
  "(string \<rightharpoonup> string) \<Rightarrow> (string \<rightharpoonup> Note) \<Rightarrow> Note
     \<Rightarrow> indexer \<times> graph_edge list \<times> (string \<rightharpoonup> nat)
     \<Rightarrow> indexer \<times> graph_edge list \<times> (string \<rightharpoonup> nat)" where
  "indexNote titleMap noteMap n st =
     (let (ix, es, nodeDegree) = st;
          (links, ix1) = extractLinks ix (note_content n);
          (es1, nodeDegree1) = fold (indexLink titleMap noteMap n) links (es, nodeDegree)
      in (ix1, es1, nodeDegree1))"

definition buildNode :: "(string \<rightharpoonup> nat) \<Rightarrow> Note \<Rightarrow> indexer \<Rightarrow> graph_node \<times> indexer" where
  "buildNode nodeDegree n ix =
     (let (tags, ix1) = extractTags ix (note_content n);
          degree = degreeOf nodeDegree (note_id n)
      in (\<lparr>node_id = note_id n, node_title = note_title n,
           node_size = max 1 (ln (real degree + 1) * 6),
           node_tags = tags, node_degree = degree,
           node_color = getColorForNode tags degree\<rparr>, ix1))"

fun buildNodes :: "(string \<rightharpoonup> nat) \<Rightarrow> Note list \<Rightarrow> indexer \<Rightarrow> graph_node list \<times> indexer" where
  "buildNodes nodeDegree [] ix = ([], ix)"
| "buildNodes nodeDegree (n # ns) ix =
     (let (node, ix1) = buildNode nodeDegree n ix;
          (rest, ix2) = buildNodes nodeDegree ns ix1
      in (node # rest, ix2))"

definition makeNoteMap :: "Note list \<Rightarrow> (string \<rightharpoonup> Note)" where
  "makeNoteMap notes = fold (\<lambda>n m. m(note_id n \<mapsto> n)) notes Map.empty"

definition makeTitleMap :: "Note list \<Rightarrow> (string \<rightharpoonup> string)" where
  "makeTitleMap notes = fold (\<lambda>n m. m(toLowerCase (note_title n) \<mapsto> note_id n)) notes Map.empty"

definition initDegree :: "Note list \<Rightarrow> (string \<rightharpoonup> nat)" where
  "initDegree notes = fold (\<lambda>n m. m(note_id n \<mapsto> 0)) notes Map.empty"

definition indexGraph :: "indexer \<Rightarrow> Note list \<Rightarrow> graph_data \<times> indexer" where
  "indexGraph ix notes =
     (let noteMap = makeNoteMap notes;
          titleMap = makeTitleMap notes;
          (ix1, es, nodeDegree) =
             fold (indexNote titleMap noteMap) notes (ix, [], initDegree notes);
          (ns, ix2) = buildNodes nodeDegree notes ix1;
          edgesUnique = deduplicateEdges es
      in (\<lparr>nodes = ns, edges = edgesUnique\<rparr>, ix2))"

subsection \<open>getBacklinks, shortestPath\<close>

definition getBacklinks :: "string \<Rightarrow> graph_edge list \<Rightarrow> string list" where
  "getBacklinks noteId es =
     map edge_from (filter (\<lambda>e. edge_to e = noteId \<and> edge_type e \<noteq> Backlink) es)"

text \<open>
  The adjacency \<open>Map\<close> keeps its keys in insertion order; it is an association list, read
  with \<open>map_of\<close>. \<open>adjacency.get(id) || []\<close> is \<open>neighborsOf\<close>.
\<close>

record queue_item =
  item_id :: string
  item_path :: "string list"

definition pushAdjacency :: "graph_edge \<Rightarrow> (string \<times> string list) list \<Rightarrow> (string \<times> string list) list" where
  "pushAdjacency e adjacency =
     (case map_of adjacency (edge_from e) of
        None \<Rightarrow> AList.update (edge_from e) [edge_to e] adjacency
      | Some ns \<Rightarrow> AList.update (edge_from e) (ns @ [edge_to e]) adjacency)"

definition buildAdjacency :: "graph_edge list \<Rightarrow> (string \<times> string list) list" where
  "buildAdjacency es = fold pushAdjacency es []"

definition neighborsOf :: "(string \<times> string list) list \<Rightarrow> string \<Rightarrow> string list" where
  "neighborsOf adjacency k = (case map_of adjacency k of None \<Rightarrow> [] | Some ns \<Rightarrow> ns)"

definition visitNeighbor ::
  "string list \<Rightarrow> string \<Rightarrow> string set \<times> queue_item list \<Rightarrow> string set \<times> queue_item list" where
  "visitNeighbor path neighbor st =
     (let (visited, queue) = st
      in if neighbor \<notin> visited
         then (insert neighbor visited,
               queue @ [\<lparr>item_id = neighbor, item_path = path @ [neighbor]\<rparr>])
         else (visited, queue))"

definition allTargets :: "(string \<times> string list) list \<Rightarrow> string set" where
  "allTargets adjacency = (\<Union>p \<in> set adjacency. set (snd p))"

lemma neighborsOf_subset: "set (neighborsOf adjacency k) \<subseteq> allTargets adjacency"
proof (cases "map_of adjacency k")
  case None
  then show ?thesis by (simp add: neighborsOf_def)
next
  case (Some ns)
  then have "(k, ns) \<in> set adjacency" by (rule map_of_SomeD)
  then show ?thesis using Some by (force simp: neighborsOf_def allTargets_def)
qed

lemma finite_allTargets: "finite (allTargets adjacency)"
  by (simp add: allTargets_def)

lemma visitNeighbors_measure:
  assumes "finite U" and "set ns \<subseteq> U"
  shows "card (U - fst (fold (visitNeighbor p) ns (v, q)))
           + length (snd (fold (visitNeighbor p) ns (v, q)))
         \<le> card (U - v) + length q"
  using assms(2)
proof (induction ns arbitrary: v q)
  case Nil
  then show ?case by simp
next
  case (Cons n ns)
  then have nU: "n \<in> U" and sub: "set ns \<subseteq> U" by simp_all
  show ?case
  proof (cases "n \<in> v")
    case True
    then show ?thesis using Cons.IH [OF sub, of v q] by (simp add: visitNeighbor_def)
  next
    case False
    have d: "U - insert n v = (U - v) - {n}" by auto
    have "n \<in> U - v" using nU False by simp
    moreover have "finite (U - v)" using assms(1) by simp
    ultimately have "card (U - v) = Suc (card ((U - v) - {n}))"
      by (rule card.remove [OF _ _, rotated])
    then have c: "Suc (card (U - insert n v)) = card (U - v)"
      by (simp only: d)
    let ?q = "q @ [\<lparr>item_id = n, item_path = p @ [n]\<rparr>]"
    from Cons.IH [OF sub, of "insert n v" ?q] c False
    show ?thesis by (simp add: visitNeighbor_def)
  qed
qed

function bfsLoop ::
  "(string \<times> string list) list \<Rightarrow> string \<Rightarrow> queue_item list \<Rightarrow> string set \<Rightarrow> string list option" where
  "bfsLoop adjacency toId [] visited = None"
| "bfsLoop adjacency toId (current # queue) visited =
     (if item_id current = toId then Some (item_path current)
      else
        let (visited', queue') =
              fold (visitNeighbor (item_path current))
                (neighborsOf adjacency (item_id current)) (visited, queue)
        in bfsLoop adjacency toId queue' visited')"
  by pat_completeness auto
termination
proof (relation "measure (\<lambda>(adjacency, toId, queue, visited).
                   card (allTargets adjacency - visited) + length queue)")
  show "wf (measure (\<lambda>(adjacency, toId, queue, visited).
              card (allTargets adjacency - visited) + length queue))"
    by simp
next
  fix adjacency :: "(string \<times> string list) list" and toId :: string
    and current :: queue_item and queue :: "queue_item list" and visited :: "string set"
    and x :: "string set \<times> queue_item list" and xa :: "string set" and y :: "queue_item list"
  assume "x = fold (visitNeighbor (item_path current))
                (neighborsOf adjacency (item_id current)) (visited, queue)"
    and "(xa, y) = x"
  then have eq: "fold (visitNeighbor (item_path current))
                (neighborsOf adjacency (item_id current)) (visited, queue) = (xa, y)"
    by simp
  from visitNeighbors_measure [OF finite_allTargets neighborsOf_subset,
      of adjacency "item_path current" "item_id current" visited queue]
  show "((adjacency, toId, y, xa), (adjacency, toId, current # queue, visited))
          \<in> measure (\<lambda>(adjacency, toId, queue, visited).
                card (allTargets adjacency - visited) + length queue)"
    by (simp add: eq)
qed

definition shortestPath :: "string \<Rightarrow> string \<Rightarrow> graph_edge list \<Rightarrow> string list option" where
  "shortestPath fromId toId es =
     bfsLoop (buildAdjacency es) toId [\<lparr>item_id = fromId, item_path = [fromId]\<rparr>] {fromId}"

declare wikilinkLoop.simps [simp del] mdLinkLoop.simps [simp del] bfsLoop.simps [simp del]

section \<open>The graph view (GraphView.tsx)\<close>

datatype node_class = Main | Secondary | Isolated

text \<open>The \<open>type\<close> that \<open>loadGraph\<close> gives a node when it builds the worker's node data.\<close>

definition nodeDataType :: "nat \<Rightarrow> node_class" where
  "nodeDataType degree =
     (if degree \<ge> 3 then Main else if degree \<ge> 1 then Secondary else Isolated)"

section \<open>The simulation worker (graph-worker.js)\<close>

text \<open>
  The worker's module-level variables are the fields of the record \<open>worker\<close>. Its numbers
  are IEEE doubles. The model leaves the type of numbers and the operations on them
  open: the record \<open>arith\<close> holds the operations the worker uses, the test whether a
  number is truthy (\<open>0\<close> and \<open>NaN\<close> are not) and the value of a literal, and every
  function of the worker takes such a record \<open>m\<close>. What is proved for every \<open>m\<close> holds for
  doubles, with their rounding, underflow and \<open>NaN\<close>. \<open>realMath\<close> is exact arithmetic
  on the real numbers, for examples whose values doubles represent exactly. The values
  \<open>Math.random()\<close> returns are a parameter \<open>rnd\<close>, the sequence of draws, and the worker
  counts how many it has taken. A handler that throws keeps the changes it made before:
  every operation that can throw returns the exception, if any, with the state.
\<close>

record 'n arith =
  num_add :: "'n \<Rightarrow> 'n \<Rightarrow> 'n"
  num_sub :: "'n \<Rightarrow> 'n \<Rightarrow> 'n"
  num_mul :: "'n \<Rightarrow> 'n \<Rightarrow> 'n"
  num_div :: "'n \<Rightarrow> 'n \<Rightarrow> 'n"
  num_sqrt :: "'n \<Rightarrow> 'n"
  num_cos :: "'n \<Rightarrow> 'n"
  num_sin :: "'n \<Rightarrow> 'n"
  num_gt :: "'n \<Rightarrow> 'n \<Rightarrow> bool"
  num_truthy :: "'n \<Rightarrow> bool"
  num_lit :: "real \<Rightarrow> 'n"

definition realMath :: "real arith" where
  "realMath =
     \<lparr>num_add = (\<lambda>a b. a + b), num_sub = (\<lambda>a b. a - b), num_mul = (\<lambda>a b. a * b),
      num_div = (\<lambda>a b. a / b), num_sqrt = sqrt, num_cos = cos, num_sin = sin,
      num_gt = (\<lambda>a b. a > b), num_truthy = (\<lambda>a. a \<noteq> 0), num_lit = (\<lambda>a. a)\<rparr>"

record 'n params =
  attraction :: 'n
  repulsion :: 'n
  damping :: 'n
  maxSpeed :: 'n
  centerForce :: 'n
  linkDistance :: 'n

record 'n params_update =
  new_attraction :: "'n option"
  new_repulsion :: "'n option"
  new_damping :: "'n option"
  new_maxSpeed :: "'n option"
  new_centerForce :: "'n option"
  new_linkDistance :: "'n option"

record node_data =
  nd_id :: string
  nd_type :: node_class

record edge_data =
  ed_source :: string
  ed_target :: string

record 'n init_data =
  data_nodes :: "node_data list option"
  data_edges :: "edge_data list option"
  data_params :: "'n params_update option"

record 'n sim_node =
  sim_id :: string
  sim_x :: 'n
  sim_y :: 'n
  sim_vx :: 'n
  sim_vy :: 'n
  sim_mass :: 'n
  sim_type :: node_class

record 'n position =
  pos_id :: string
  pos_x :: 'n
  pos_y :: 'n

datatype js_error = TypeError

datatype 'n message =
    Init "'n init_data option"
  | Start
  | Stop
  | UpdateParams "'n params_update option"
  | UpdateNodes "node_data list option"
  | Unknown string

record 'n worker =
  w_nodes :: "(string \<times> 'n sim_node) list"
  w_edges :: "edge_data list option"
  w_params :: "'n params"
  isRunning :: bool
  timers :: nat
  posted :: "'n position list list"
  draws :: nat

definition defaultParams :: "'n arith \<Rightarrow> 'n params" where
  "defaultParams m =
     \<lparr>attraction = num_lit m (1 / 100), repulsion = num_lit m 300,
      damping = num_lit m (8 / 10), maxSpeed = num_lit m 10,
      centerForce = num_lit m (2 / 100), linkDistance = num_lit m 50\<rparr>"

definition newWorker :: "'n arith \<Rightarrow> 'n worker" where
  "newWorker m =
     \<lparr>w_nodes = [], w_edges = Some [], w_params = defaultParams m, isRunning = False,
      timers = 0, posted = [], draws = 0\<rparr>"

text \<open>\<open>{ ...params, ...update }\<close>: a field the update has replaces the old one.\<close>

definition mergeParams :: "'n params \<Rightarrow> 'n params_update \<Rightarrow> 'n params" where
  "mergeParams p u =
     \<lparr>attraction = (case new_attraction u of None \<Rightarrow> attraction p | Some x \<Rightarrow> x),
      repulsion = (case new_repulsion u of None \<Rightarrow> repulsion p | Some x \<Rightarrow> x),
      damping = (case new_damping u of None \<Rightarrow> damping p | Some x \<Rightarrow> x),
      maxSpeed = (case new_maxSpeed u of None \<Rightarrow> maxSpeed p | Some x \<Rightarrow> x),
      centerForce = (case new_centerForce u of None \<Rightarrow> centerForce p | Some x \<Rightarrow> x),
      linkDistance = (case new_linkDistance u of None \<Rightarrow> linkDistance p | Some x \<Rightarrow> x)\<rparr>"

definition massOf :: "'n arith \<Rightarrow> node_class \<Rightarrow> 'n" where
  "massOf m ty =
     (if ty = Main then num_lit m 2 else if ty = Secondary then num_lit m (3 / 2)
      else num_lit m 1)"

subsection \<open>initGraph\<close>

definition initNode :: "'n arith \<Rightarrow> (nat \<Rightarrow> 'n) \<Rightarrow> node_data \<Rightarrow> 'n worker \<Rightarrow> 'n worker" where
  "initNode m rnd nodeData w =
     (let angle = num_mul m (num_mul m (rnd (draws w)) (num_lit m pi)) (num_lit m 2);
          radius = num_add m (num_lit m 200) (num_mul m (rnd (draws w + 1)) (num_lit m 100))
      in w\<lparr>w_nodes := AList.update (nd_id nodeData)
                \<lparr>sim_id = nd_id nodeData,
                 sim_x = num_mul m (num_cos m angle) radius,
                 sim_y = num_mul m (num_sin m angle) radius,
                 sim_vx = num_lit m 0, sim_vy = num_lit m 0,
                 sim_mass = massOf m (nd_type nodeData),
                 sim_type = nd_type nodeData\<rparr> (w_nodes w),
            draws := draws w + 2\<rparr>)"

text \<open>
  Reading a field of an absent payload, and calling \<open>forEach\<close> on an absent \<open>nodes\<close>, throw
  a \<open>TypeError\<close>; an absent \<open>edges\<close> is stored as it is.
\<close>

definition initGraph ::
  "'n arith \<Rightarrow> (nat \<Rightarrow> 'n) \<Rightarrow> 'n init_data option \<Rightarrow> 'n worker \<Rightarrow> js_error option \<times> 'n worker" where
  "initGraph m rnd payload w =
     (let w1 = w\<lparr>w_nodes := []\<rparr>
      in case payload of
           None \<Rightarrow> (Some TypeError, w1)
         | Some d \<Rightarrow>
             let w2 = w1\<lparr>w_edges := data_edges d\<rparr>;
                 w3 = (case data_params d of
                         None \<Rightarrow> w2
                       | Some u \<Rightarrow> w2\<lparr>w_params := mergeParams (w_params w2) u\<rparr>)
             in case data_nodes d of
                  None \<Rightarrow> (Some TypeError, w3)
                | Some nds \<Rightarrow> (None, fold (initNode m rnd) nds w3))"

subsection \<open>The forces\<close>

text \<open>
  \<open>Math.sqrt(dx * dx + dy * dy) || 1\<close>: the computed distance when it is truthy, and 1
  when it is \<open>0\<close> or \<open>NaN\<close>.
\<close>

definition distanceOr1 :: "'n arith \<Rightarrow> 'n \<Rightarrow> 'n \<Rightarrow> 'n" where
  "distanceOr1 m dx dy =
     (let d = num_sqrt m (num_add m (num_mul m dx dx) (num_mul m dy dy))
      in if num_truthy m d then d else num_lit m 1)"

definition repelPair :: "'n arith \<Rightarrow> 'n params \<Rightarrow> nat \<Rightarrow> nat \<Rightarrow> 'n sim_node list \<Rightarrow> 'n sim_node list" where
  "repelPair m p i j nodeArray =
     (let nodeA = nodeArray ! i;
          nodeB = nodeArray ! j;
          dx = num_sub m (sim_x nodeB) (sim_x nodeA);
          dy = num_sub m (sim_y nodeB) (sim_y nodeA);
          distance = distanceOr1 m dx dy;
          force = num_div m (repulsion p) (num_mul m distance distance);
          fx = num_mul m (num_div m dx distance) force;
          fy = num_mul m (num_div m dy distance) force;
          nodeA' = nodeA\<lparr>sim_vx := num_sub m (sim_vx nodeA) (num_div m fx (sim_mass nodeA)),
                         sim_vy := num_sub m (sim_vy nodeA) (num_div m fy (sim_mass nodeA))\<rparr>;
          nodeB' = nodeB\<lparr>sim_vx := num_add m (sim_vx nodeB) (num_div m fx (sim_mass nodeB)),
                         sim_vy := num_add m (sim_vy nodeB) (num_div m fy (sim_mass nodeB))\<rparr>
      in (nodeArray[i := nodeA'])[j := nodeB'])"

text \<open>
  The two loops run over the indices \<open>i < j\<close> of the array of the map's values, which are
  the node objects themselves: the changes reach the map.
\<close>

definition repelAll :: "'n arith \<Rightarrow> 'n params \<Rightarrow> 'n sim_node list \<Rightarrow> 'n sim_node list" where
  "repelAll m p nodeArray =
     fold (\<lambda>i arr. fold (\<lambda>j arr. repelPair m p i j arr) [i + 1..<length nodeArray] arr)
       [0..<length nodeArray] nodeArray"

definition applyRepulsion :: "'n arith \<Rightarrow> 'n worker \<Rightarrow> 'n worker" where
  "applyRepulsion m w =
     w\<lparr>w_nodes := zip (map fst (w_nodes w)) (repelAll m (w_params w) (map snd (w_nodes w)))\<rparr>"

definition attractEdge ::
  "'n arith \<Rightarrow> 'n params \<Rightarrow> edge_data \<Rightarrow> (string \<times> 'n sim_node) list \<Rightarrow> (string \<times> 'n sim_node) list" where
  "attractEdge m p edge ns =
     (case (map_of ns (ed_source edge), map_of ns (ed_target edge)) of
        (Some src, Some tgt) \<Rightarrow>
          let dx = num_sub m (sim_x tgt) (sim_x src);
              dy = num_sub m (sim_y tgt) (sim_y src);
              distance = distanceOr1 m dx dy;
              displacement = num_sub m distance (linkDistance p);
              force = num_mul m displacement (attraction p);
              fx = num_mul m (num_div m dx distance) force;
              fy = num_mul m (num_div m dy distance) force;
              ns1 = AList.update (ed_source edge)
                      (src\<lparr>sim_vx := num_add m (sim_vx src) (num_div m fx (sim_mass src)),
                           sim_vy := num_add m (sim_vy src) (num_div m fy (sim_mass src))\<rparr>) ns
          in (case map_of ns1 (ed_target edge) of
                Some tgt1 \<Rightarrow>
                  AList.update (ed_target edge)
                    (tgt1\<lparr>sim_vx := num_sub m (sim_vx tgt1) (num_div m fx (sim_mass tgt1)),
                          sim_vy := num_sub m (sim_vy tgt1) (num_div m fy (sim_mass tgt1))\<rparr>) ns1
              | None \<Rightarrow> ns1)
      | _ \<Rightarrow> ns)"

definition applyAttraction :: "'n arith \<Rightarrow> 'n worker \<Rightarrow> js_error option \<times> 'n worker" where
  "applyAttraction m w =
     (case w_edges w of
        None \<Rightarrow> (Some TypeError, w)
      | Some es \<Rightarrow> (None, w\<lparr>w_nodes := fold (attractEdge m (w_params w)) es (w_nodes w)\<rparr>))"

definition centerNode :: "'n arith \<Rightarrow> 'n params \<Rightarrow> 'n sim_node \<Rightarrow> 'n sim_node" where
  "centerNode m p n =
     n\<lparr>sim_vx := num_sub m (sim_vx n) (num_mul m (sim_x n) (centerForce p)),
       sim_vy := num_sub m (sim_vy n) (num_mul m (sim_y n) (centerForce p))\<rparr>"

definition applyCenterForce :: "'n arith \<Rightarrow> 'n worker \<Rightarrow> 'n worker" where
  "applyCenterForce m w =
     w\<lparr>w_nodes := map (\<lambda>(k, n). (k, centerNode m (w_params w) n)) (w_nodes w)\<rparr>"

definition moveNode :: "'n arith \<Rightarrow> 'n params \<Rightarrow> 'n sim_node \<Rightarrow> 'n sim_node" where
  "moveNode m p n =
     (let vx1 = num_mul m (sim_vx n) (damping p);
          vy1 = num_mul m (sim_vy n) (damping p);
          speed = num_sqrt m (num_add m (num_mul m vx1 vx1) (num_mul m vy1 vy1));
          vx2 = (if num_gt m speed (maxSpeed p)
                 then num_mul m (num_div m vx1 speed) (maxSpeed p) else vx1);
          vy2 = (if num_gt m speed (maxSpeed p)
                 then num_mul m (num_div m vy1 speed) (maxSpeed p) else vy1)
      in n\<lparr>sim_vx := vx2, sim_vy := vy2,
           sim_x := num_add m (sim_x n) vx2, sim_y := num_add m (sim_y n) vy2\<rparr>)"

definition updatePositions :: "'n arith \<Rightarrow> 'n worker \<Rightarrow> 'n worker" where
  "updatePositions m w =
     w\<lparr>w_nodes := map (\<lambda>(k, n). (k, moveNode m (w_params w) n)) (w_nodes w)\<rparr>"

subsection \<open>The simulation loop and the message handler\<close>

definition simulationStep :: "'n arith \<Rightarrow> 'n worker \<Rightarrow> js_error option \<times> 'n worker" where
  "simulationStep m w =
     (case applyAttraction m (applyRepulsion m w) of
        (Some e, w1) \<Rightarrow> (Some e, w1)
      | (None, w1) \<Rightarrow>
          let w2 = updatePositions m (applyCenterForce m w1);
              positions = map (\<lambda>(k, n). \<lparr>pos_id = sim_id n, pos_x = sim_x n, pos_y = sim_y n\<rparr>)
                            (w_nodes w2)
          in (None, w2\<lparr>posted := posted w2 @ [positions]\<rparr>))"

text \<open>
  One run of \<open>loop\<close>: a step, then \<open>setTimeout\<close>, which adds a pending timer. The timer's
  callback is \<open>timerFired\<close>.
\<close>

definition loop :: "'n arith \<Rightarrow> 'n worker \<Rightarrow> js_error option \<times> 'n worker" where
  "loop m w =
     (if \<not> isRunning w then (None, w)
      else case simulationStep m w of
             (Some e, w1) \<Rightarrow> (Some e, w1)
           | (None, w1) \<Rightarrow> (None, w1\<lparr>timers := timers w1 + 1\<rparr>))"

definition timerFired :: "'n arith \<Rightarrow> 'n worker \<Rightarrow> js_error option \<times> 'n worker" where
  "timerFired m w =
     (if timers w = 0 then (None, w)
      else let w1 = w\<lparr>timers := timers w - 1\<rparr>
           in if isRunning w1 then loop m w1 else (None, w1))"

definition startSimulation :: "'n arith \<Rightarrow> 'n worker \<Rightarrow> js_error option \<times> 'n worker" where
  "startSimulation m w =
     (if isRunning w then (None, w) else loop m (w\<lparr>isRunning := True\<rparr>))"

definition stopSimulation :: "'n worker \<Rightarrow> 'n worker" where
  "stopSimulation w = w\<lparr>isRunning := False\<rparr>"

definition updateNode ::
  "'n arith \<Rightarrow> node_data \<Rightarrow> (string \<times> 'n sim_node) list \<Rightarrow> (string \<times> 'n sim_node) list" where
  "updateNode m nodeData ns =
     (case map_of ns (nd_id nodeData) of
        None \<Rightarrow> ns
      | Some existing \<Rightarrow>
          AList.update (nd_id nodeData)
            (existing\<lparr>sim_mass := massOf m (nd_type nodeData),
                      sim_type := nd_type nodeData\<rparr>) ns)"

definition onmessage ::
  "'n arith \<Rightarrow> (nat \<Rightarrow> 'n) \<Rightarrow> 'n message \<Rightarrow> 'n worker \<Rightarrow> js_error option \<times> 'n worker" where
  "onmessage m rnd msg w =
     (case msg of
        Init payload \<Rightarrow>
          (case initGraph m rnd payload w of
             (Some e, w1) \<Rightarrow> (Some e, w1)
           | (None, w1) \<Rightarrow> startSimulation m w1)
      | Start \<Rightarrow> startSimulation m w
      | Stop \<Rightarrow> (None, stopSimulation w)
      | UpdateParams u \<Rightarrow>
          (case u of
             None \<Rightarrow> (None, w)
           | Some u' \<Rightarrow> (None, w\<lparr>w_params := mergeParams (w_params w) u'\<rparr>))
      | UpdateNodes nds \<Rightarrow>
          (case nds of
             None \<Rightarrow> (Some TypeError, w)
           | Some nds' \<Rightarrow> (None, w\<lparr>w_nodes := fold (updateNode m) nds' (w_nodes w)\<rparr>))
      | Unknown ty \<Rightarrow> (None, w))"

section \<open>Vocabulary of the properties\<close>

text \<open>
  The notions the properties below are stated with; none of them is part of the program.
  \<open>endpoints\<close> is the unordered pair of an edge; \<open>pairedEdges\<close> says that a list is made
  of forward edges each followed by an edge with the same key; \<open>linkEdges\<close> are the edges
  one link adds; \<open>resolvedNonSelf\<close> holds of a link that resolves to a note other than its
  source, \<open>resolvedLinkCount\<close> counts the occurrences of such links over all notes,
  \<open>distinctLinkCount\<close> counts the different pairs of a source and a target among them,
  and \<open>degreeSum\<close> adds up the degrees of a graph's nodes.
\<close>

definition endpoints :: "graph_edge \<Rightarrow> string set" where
  "endpoints e = {edge_from e, edge_to e}"

fun pairedEdges :: "graph_edge list \<Rightarrow> bool" where
  "pairedEdges [] = True"
| "pairedEdges [e] = False"
| "pairedEdges (f # b # es) =
     (edge_type f \<noteq> Backlink \<and> edgeKey b = edgeKey f \<and> pairedEdges es)"

definition linkEdges :: "(string \<rightharpoonup> string) \<Rightarrow> (string \<rightharpoonup> Note) \<Rightarrow> Note \<Rightarrow> link \<Rightarrow> graph_edge list" where
  "linkEdges titleMap noteMap n lnk =
     (case resolveLink lnk titleMap noteMap of
        None \<Rightarrow> []
      | Some targetId \<Rightarrow>
          if targetId \<noteq> [] \<and> targetId \<noteq> note_id n
          then [\<lparr>edge_from = note_id n, edge_to = targetId, edge_type = Link (link_type lnk)\<rparr>,
                \<lparr>edge_from = targetId, edge_to = note_id n, edge_type = Backlink\<rparr>]
          else [])"

definition resolvedNonSelf :: "(string \<rightharpoonup> string) \<Rightarrow> (string \<rightharpoonup> Note) \<Rightarrow> Note \<Rightarrow> link \<Rightarrow> bool" where
  "resolvedNonSelf titleMap noteMap n lnk =
     (case resolveLink lnk titleMap noteMap of None \<Rightarrow> False | Some t \<Rightarrow> t \<noteq> note_id n)"

definition resolvedLinkCount :: "Note list \<Rightarrow> nat" where
  "resolvedLinkCount notes =
     sum_list (map (\<lambda>n. length (filter (resolvedNonSelf (makeTitleMap notes) (makeNoteMap notes) n)
                                   (fst (extractLinks newIndexer (note_content n))))) notes)"

definition degreeSum :: "graph_data \<Rightarrow> nat" where
  "degreeSum g = sum_list (map node_degree (nodes g))"

text \<open>
  \<open>linkOccurrences\<close> lists, in order, the source and the target of every occurrence of a
  link that resolves to a note other than the one containing it; \<open>endpointCount\<close> counts
  how often an id is the source and how often the target in such a list, and
  \<open>degreeFromLinks\<close> is that count over all the notes.
\<close>

definition noteOccurrences ::
  "(string \<rightharpoonup> string) \<Rightarrow> (string \<rightharpoonup> Note) \<Rightarrow> Note \<Rightarrow> link list \<Rightarrow> (string \<times> string) list" where
  "noteOccurrences titleMap noteMap n links =
     concat (map (\<lambda>l. case resolveLink l titleMap noteMap of
                          None \<Rightarrow> []
                        | Some t \<Rightarrow> if t \<noteq> note_id n then [(note_id n, t)] else []) links)"

definition linkOccurrences :: "Note list \<Rightarrow> (string \<times> string) list" where
  "linkOccurrences notes =
     concat (map (\<lambda>n. noteOccurrences (makeTitleMap notes) (makeNoteMap notes) n
                          (fst (extractLinks newIndexer (note_content n)))) notes)"

definition endpointCount :: "(string \<times> string) list \<Rightarrow> string \<Rightarrow> nat" where
  "endpointCount occ k =
     length (filter (\<lambda>p. fst p = k) occ) + length (filter (\<lambda>p. snd p = k) occ)"

definition degreeFromLinks :: "Note list \<Rightarrow> string \<Rightarrow> nat" where
  "degreeFromLinks notes k = endpointCount (linkOccurrences notes) k"

definition distinctLinkCount :: "Note list \<Rightarrow> nat" where
  "distinctLinkCount notes =
     length (remdups (concat (map (\<lambda>n.
        map (\<lambda>l. (note_id n, resolveLink l (makeTitleMap notes) (makeNoteMap notes)))
          (filter (resolvedNonSelf (makeTitleMap notes) (makeNoteMap notes) n)
             (fst (extractLinks newIndexer (note_content n))))) notes)))"

text \<open>
  The resolution rules in the words of the specification, as a relation between a target
  and a result, with the choice of the basename left open: rule 1 (the target is a note
  id), rule 2 (its lower-cased form is the lower-cased title of a note, whose id is the
  result), rule 3 (rule 2 on the cleaned target), rule 4 (rule 2 on the basename of the
  cleaned target), rule 5 (no result). \<open>lastSegment\<close> is the segment after the last slash;
  \<open>basenameOrCleaned\<close> falls back to the cleaned target when that segment is empty.
\<close>

definition hasTitle :: "Note list \<Rightarrow> string \<Rightarrow> bool" where
  "hasTitle notes s = (\<exists>n \<in> set notes. toLowerCase (note_title n) = toLowerCase s)"

definition titleMatch :: "Note list \<Rightarrow> string \<Rightarrow> string option \<Rightarrow> bool" where
  "titleMatch notes s r =
     (case r of None \<Rightarrow> False
      | Some i \<Rightarrow> (\<exists>n \<in> set notes. toLowerCase (note_title n) = toLowerCase s \<and> note_id n = i))"

definition resolutionRules :: "(string \<Rightarrow> string) \<Rightarrow> Note list \<Rightarrow> string \<Rightarrow> string option \<Rightarrow> bool" where
  "resolutionRules basenameOf notes target r =
     (if target \<in> note_id ` set notes then r = Some target
      else if hasTitle notes target then titleMatch notes target r
      else
        let cleaned = stripDotSlash (stripMd target)
        in if hasTitle notes cleaned then titleMatch notes cleaned r
           else if hasTitle notes (basenameOf cleaned) then titleMatch notes (basenameOf cleaned) r
           else r = None)"

definition basenameOrCleaned :: "string \<Rightarrow> string" where
  "basenameOrCleaned cleaned = (if lastSegment cleaned \<noteq> [] then lastSegment cleaned else cleaned)"

text \<open>
  Paths: \<open>edgeRel\<close> is the directed relation of an edge list, \<open>isPath\<close> holds of a
  non-empty list of ids whose consecutive elements are joined by an edge, and
  \<open>pathFromTo\<close> fixes its first and last element. \<open>bfsInv\<close> and \<open>bfsMinInv\<close> are the
  invariants of the search loop: every visited id is still queued or has all its
  successors visited, and the queued paths are shortest paths, in order of length.
\<close>

definition edgeRel :: "graph_edge list \<Rightarrow> (string \<times> string) set" where
  "edgeRel es = (\<lambda>e. (edge_from e, edge_to e)) ` set es"

fun isPath :: "graph_edge list \<Rightarrow> string list \<Rightarrow> bool" where
  "isPath es [] = False"
| "isPath es [a] = True"
| "isPath es (a # b # p) = ((a, b) \<in> edgeRel es \<and> isPath es (b # p))"

definition pathFromTo :: "graph_edge list \<Rightarrow> string \<Rightarrow> string \<Rightarrow> string list \<Rightarrow> bool" where
  "pathFromTo es a b p = (p \<noteq> [] \<and> hd p = a \<and> last p = b \<and> isPath es p)"

definition bfsInv :: "graph_edge list \<Rightarrow> string \<Rightarrow> queue_item list \<Rightarrow> string set \<Rightarrow> bool" where
  "bfsInv es t q v =
     (item_id ` set q \<subseteq> v
      \<and> (\<forall>x \<in> v. x \<in> item_id ` set q \<or> (x \<noteq> t \<and> (\<forall>y. (x, y) \<in> edgeRel es \<longrightarrow> y \<in> v))))"

definition bfsMinInv :: "graph_edge list \<Rightarrow> string \<Rightarrow> queue_item list \<Rightarrow> string set \<Rightarrow> bool" where
  "bfsMinInv es f q v =
     ((\<forall>item \<in> set q. pathFromTo es f (item_id item) (item_path item))
      \<and> sorted (map (\<lambda>item. length (item_path item)) q)
      \<and> (\<forall>i \<in> set q. \<forall>j \<in> set q. length (item_path i) \<le> length (item_path j) + 1)
      \<and> item_id ` set q \<subseteq> v
      \<and> (\<forall>x \<in> v. x \<in> item_id ` set q \<or> (\<forall>y. (x, y) \<in> edgeRel es \<longrightarrow> y \<in> v))
      \<and> (\<forall>item \<in> set q. \<forall>p'. pathFromTo es f (item_id item) p'
            \<longrightarrow> length (item_path item) \<le> length p')
      \<and> (\<forall>y p'. q \<noteq> [] \<longrightarrow> pathFromTo es f y p'
            \<longrightarrow> length p' \<le> length (item_path (hd q)) \<longrightarrow> y \<in> v))"


definition indexPairs :: "nat \<Rightarrow> (nat \<times> nat) list" where
  "indexPairs n = concat (map (\<lambda>i. map (Pair i) [i + 1..<n]) [0..<n])"


subsection \<open>Example inputs\<close>

definition scenarioNotes :: "Note list" where
  "scenarioNotes =
     [\<lparr>note_id = ''1'', note_title = ''Home'', note_content = ''See [[Work]] and [[Home]]''\<rparr>,
      \<lparr>note_id = ''2'', note_title = ''Work'', note_content = ''Back to [[Home]]''\<rparr>,
      \<lparr>note_id = ''3'', note_title = ''Isolated'', note_content = ''no links''\<rparr>]"

definition homeNote :: Note where
  "homeNote =
     \<lparr>note_id = ''1'', note_title = ''Home'', note_content = ''See [[Work]] and [[Home]]''\<rparr>"

definition untitledNotes :: "Note list" where
  "untitledNotes = [\<lparr>note_id = ''n1'', note_title = '''', note_content = ''''\<rparr>]"

definition projectNotes :: "Note list" where
  "projectNotes = [\<lparr>note_id = ''abc'', note_title = ''Project Plan'', note_content = ''''\<rparr>]"

definition sharedIdNotes :: "Note list" where
  "sharedIdNotes =
     [\<lparr>note_id = ''a'', note_title = ''A'', note_content = ''[[B]]''\<rparr>,
      \<lparr>note_id = ''a'', note_title = ''A2'', note_content = ''''\<rparr>,
      \<lparr>note_id = ''b'', note_title = ''B'', note_content = ''''\<rparr>]"

definition emptyIdNotes :: "Note list" where
  "emptyIdNotes =
     [\<lparr>note_id = '''', note_title = ''X'', note_content = ''''\<rparr>,
      \<lparr>note_id = ''b'', note_title = ''B'', note_content = ''[[X]]''\<rparr>]"

definition repeatedLinkNotes :: "Note list" where
  "repeatedLinkNotes =
     [\<lparr>note_id = ''a'', note_title = ''A'', note_content = ''[[B]] and [[B]]''\<rparr>,
      \<lparr>note_id = ''b'', note_title = ''B'', note_content = ''''\<rparr>]"

definition chainEdges :: "graph_edge list" where
  "chainEdges =
     [\<lparr>edge_from = ''A'', edge_to = ''B'', edge_type = Link Wikilink\<rparr>,
      \<lparr>edge_from = ''B'', edge_to = ''C'', edge_type = Link Wikilink\<rparr>]"



definition payloadWithoutNodes :: "'n init_data" where
  "payloadWithoutNodes = \<lparr>data_nodes = None, data_edges = Some [], data_params = None\<rparr>"

definition payloadWithoutEdges :: "'n init_data" where
  "payloadWithoutEdges =
     \<lparr>data_nodes = Some [\<lparr>nd_id = ''n'', nd_type = Main\<rparr>], data_edges = None,
      data_params = None\<rparr>"

section \<open>The deduplicated edge list\<close>

lemma edgeKey_endpoints:
  assumes "endpoints e = endpoints e'"
  shows "edgeKey e = edgeKey e'"
proof -
  from assms have "(edge_from e = edge_from e' \<and> edge_to e = edge_to e')
      \<or> (edge_from e = edge_to e' \<and> edge_to e = edge_from e')"
    by (simp add: endpoints_def doubleton_eq_iff)
  then show ?thesis
  proof
    assume "edge_from e = edge_from e' \<and> edge_to e = edge_to e'"
    then show ?thesis by (simp add: edgeKey_def)
  next
    assume sw: "edge_from e = edge_to e' \<and> edge_to e = edge_from e'"
    show ?thesis
    proof (cases "edge_from e < edge_to e")
      case True
      then have "\<not> edge_from e' < edge_to e'" using sw by simp
      then show ?thesis using True sw by (simp add: edgeKey_def)
    next
      case False
      show ?thesis
      proof (cases "edge_from e' < edge_to e'")
        case True
        then show ?thesis using False sw by (simp add: edgeKey_def)
      next
        case F2: False
        from False F2 sw have "edge_from e = edge_to e" by simp
        then show ?thesis using False F2 sw by (simp add: edgeKey_def)
      qed
    qed
  qed
qed

lemma edgeKey_swap:
  "edgeKey \<lparr>edge_from = t, edge_to = s, edge_type = k'\<rparr>
     = edgeKey \<lparr>edge_from = s, edge_to = t, edge_type = k\<rparr>"
  by (rule edgeKey_endpoints) (auto simp: endpoints_def)

lemma dedup_fold_invariant:
  assumes "distinct (map edgeKey u)" and "seen = set (map edgeKey u)"
  shows "distinct (map edgeKey (snd (fold dedupStep es (seen, u))))
       \<and> fst (fold dedupStep es (seen, u)) = set (map edgeKey (snd (fold dedupStep es (seen, u))))
       \<and> set (snd (fold dedupStep es (seen, u))) \<subseteq> set u \<union> set es"
  using assms
proof (induction es arbitrary: seen u)
  case Nil
  then show ?case by simp
next
  case (Cons e es)
  show ?case
  proof (cases "edgeKey e \<in> seen")
    case True
    then have "dedupStep e (seen, u) = (seen, u)" by (simp add: dedupStep_def)
    then show ?thesis using Cons.IH [OF Cons.prems] by auto
  next
    case False
    then have st: "dedupStep e (seen, u) = (insert (edgeKey e) seen, u @ [e])"
      by (simp add: dedupStep_def)
    have "distinct (map edgeKey (u @ [e]))" using False Cons.prems by simp
    moreover have "insert (edgeKey e) seen = set (map edgeKey (u @ [e]))"
      using Cons.prems by simp
    ultimately show ?thesis using Cons.IH [of "u @ [e]" "insert (edgeKey e) seen"] st
      by auto
  qed
qed

lemma deduplicateEdges_distinct_keys: "distinct (map edgeKey (deduplicateEdges es))"
  using dedup_fold_invariant [of "[]" "{}" es] by (simp add: deduplicateEdges_def)

lemma deduplicateEdges_subset: "set (deduplicateEdges es) \<subseteq> set es"
  using dedup_fold_invariant [of "[]" "{}" es] by (simp add: deduplicateEdges_def)

lemma deduplicateEdges_distinct_endpoints: "distinct (map endpoints (deduplicateEdges es))"
proof -
  have "inj_on endpoints (set (deduplicateEdges es))"
  proof (rule inj_onI)
    fix x y
    assume x: "x \<in> set (deduplicateEdges es)" and y: "y \<in> set (deduplicateEdges es)"
      and ep: "endpoints x = endpoints y"
    from ep have "edgeKey x = edgeKey y" by (rule edgeKey_endpoints)
    moreover have "inj_on edgeKey (set (deduplicateEdges es))"
      using deduplicateEdges_distinct_keys [of es] by (simp add: distinct_map)
    ultimately show "x = y" using x y by (auto dest: inj_onD)
  qed
  moreover have "distinct (deduplicateEdges es)"
    using deduplicateEdges_distinct_keys [of es] by (simp add: distinct_map)
  ultimately show ?thesis by (simp add: distinct_map)
qed

text \<open>
  Every edge the link loop appends comes from \<open>linkEdges\<close>: a forward edge and its
  backlink, between two different ids. A property of edge lists that holds of the empty
  list and survives appending such a pair therefore holds of the list handed to
  \<open>deduplicateEdges\<close>.
\<close>

lemma fst_indexLink: "fst (indexLink tm nm n l (es, d)) = es @ linkEdges tm nm n l"
  by (simp add: indexLink_def linkEdges_def Let_def split: option.splits)

lemma link_phase_invariant_links:
  assumes step: "\<And>es s t k. P es \<Longrightarrow> s \<noteq> t \<Longrightarrow>
      P (es @ [\<lparr>edge_from = s, edge_to = t, edge_type = Link k\<rparr>,
               \<lparr>edge_from = t, edge_to = s, edge_type = Backlink\<rparr>])"
  shows "P (fst st) \<Longrightarrow> P (fst (fold (indexLink tm nm n) ls st))"
proof (induction ls arbitrary: st)
  case Nil
  then show ?case by simp
next
  case (Cons l ls)
  obtain es d where st: "st = (es, d)" by (cases st)
  have "P (fst (indexLink tm nm n l st))"
    using Cons.prems step [of es]
    by (auto simp: st fst_indexLink linkEdges_def split: option.splits)
  from Cons.IH [OF this] show ?case by simp
qed

lemma link_phase_invariant:
  assumes step: "\<And>es s t k. P es \<Longrightarrow> s \<noteq> t \<Longrightarrow>
      P (es @ [\<lparr>edge_from = s, edge_to = t, edge_type = Link k\<rparr>,
               \<lparr>edge_from = t, edge_to = s, edge_type = Backlink\<rparr>])"
  shows "P (fst (snd st)) \<Longrightarrow> P (fst (snd (fold (indexNote tm nm) ns st)))"
proof (induction ns arbitrary: st)
  case Nil
  then show ?case by simp
next
  case (Cons n ns)
  obtain ix es d where st: "st = (ix, es, d)" by (cases st)
  have "P (fst (snd (indexNote tm nm n st)))"
    using link_phase_invariant_links [of P "(es, d)" tm nm n, OF step] Cons.prems
    by (simp add: st indexNote_def split_beta)
  from Cons.IH [OF this] show ?case by simp
qed

lemma indexGraph_edges:
  "edges (fst (indexGraph ix notes)) =
     deduplicateEdges (fst (snd (fold (indexNote (makeTitleMap notes) (makeNoteMap notes))
        notes (ix, [], initDegree notes))))"
  by (simp add: indexGraph_def Let_def split_beta)

lemma link_phase_no_self_loop:
  "\<forall>e \<in> set (fst (snd (fold (indexNote tm nm) ns (ix, [], d)))). edge_from e \<noteq> edge_to e"
  by (rule link_phase_invariant [where P = "\<lambda>es. \<forall>e \<in> set es. edge_from e \<noteq> edge_to e"])
     auto

lemma scenario_edges:
  "edges (fst (indexGraph newIndexer scenarioNotes))
     = [\<lparr>edge_from = ''1'', edge_to = ''2'', edge_type = Link Wikilink\<rparr>]"
  unfolding indexGraph_edges by code_simp

text \<open>
  C1. For every list of notes (and whatever state the indexer's regular expressions are
  in), no two edges returned by \<open>indexGraph\<close> have the same unordered pair of endpoints,
  and no returned edge goes from a note to itself.
\<close>

theorem indexGraph_dedup_invariant:
  "distinct (map endpoints (edges (fst (indexGraph ix notes))))
   \<and> (\<forall>e \<in> set (edges (fst (indexGraph ix notes))). edge_from e \<noteq> edge_to e)"
proof
  show "distinct (map endpoints (edges (fst (indexGraph ix notes))))"
    by (simp only: indexGraph_edges deduplicateEdges_distinct_endpoints)
next
  show "\<forall>e \<in> set (edges (fst (indexGraph ix notes))). edge_from e \<noteq> edge_to e"
    using deduplicateEdges_subset link_phase_no_self_loop
    unfolding indexGraph_edges by blast
qed

theorem indexGraph_dedup_invariant_witness:
  "\<lparr>edge_from = ''1'', edge_to = ''2'', edge_type = Link Wikilink\<rparr>
      \<in> set (edges (fst (indexGraph newIndexer scenarioNotes)))
   \<and> edge_from \<lparr>edge_from = ''1'', edge_to = ''2'', edge_type = Link Wikilink\<rparr>
      \<noteq> edge_to \<lparr>edge_from = ''1'', edge_to = ''2'', edge_type = Link Wikilink\<rparr>
   \<and> distinct (map endpoints (edges (fst (indexGraph newIndexer scenarioNotes))))"
proof -
  let ?e = "\<lparr>edge_from = ''1'', edge_to = ''2'', edge_type = Link Wikilink\<rparr>"
  note t = indexGraph_dedup_invariant [of newIndexer scenarioNotes]
  have m: "?e \<in> set (edges (fst (indexGraph newIndexer scenarioNotes)))"
    by (simp add: scenario_edges)
  from t have d: "distinct (map endpoints (edges (fst (indexGraph newIndexer scenarioNotes))))"
    by (rule conjunct1)
  from t have "\<forall>e \<in> set (edges (fst (indexGraph newIndexer scenarioNotes))).
      edge_from e \<noteq> edge_to e"
    by (rule conjunct2)
  from this m have "edge_from ?e \<noteq> edge_to ?e" by (rule bspec)
  from m this d show ?thesis by (intro conjI)
qed

section \<open>No backlink survives deduplication\<close>

lemma pairedEdges_append: "pairedEdges xs \<Longrightarrow> pairedEdges ys \<Longrightarrow> pairedEdges (xs @ ys)"
  by (induction xs rule: pairedEdges.induct) auto

lemma dedup_paired:
  "pairedEdges es \<Longrightarrow> \<forall>e \<in> set u. edge_type e \<noteq> Backlink \<Longrightarrow>
     \<forall>e \<in> set (snd (fold dedupStep es (seen, u))). edge_type e \<noteq> Backlink"
proof (induction es arbitrary: seen u rule: pairedEdges.induct)
  case 1
  then show ?case by simp
next
  case (2 e)
  then show ?case by simp
next
  case (3 f b es)
  from "3.prems"(1) have tf: "edge_type f \<noteq> Backlink" and kb: "edgeKey b = edgeKey f"
    and pe: "pairedEdges es" by simp_all
  obtain seen' u' where st: "dedupStep f (seen, u) = (seen', u')"
    by (cases "dedupStep f (seen, u)")
  have in_seen: "edgeKey f \<in> seen'" and u': "\<forall>e \<in> set u'. edge_type e \<noteq> Backlink"
    using st tf "3.prems"(2) by (auto simp: dedupStep_def Let_def split: if_splits)
  have "dedupStep b (seen', u') = (seen', u')"
    using in_seen kb by (simp add: dedupStep_def)
  then have "fold dedupStep (f # b # es) (seen, u) = fold dedupStep es (seen', u')"
    by (simp add: st)
  then show ?case using "3.IH" [OF pe u'] by simp
qed

lemma link_phase_paired:
  "pairedEdges (fst (snd (fold (indexNote tm nm) ns (ix, [], d))))"
proof (rule link_phase_invariant [where P = pairedEdges])
  fix es :: "graph_edge list" and s t :: string and k :: link_kind
  assume "pairedEdges es"
  moreover have "pairedEdges [\<lparr>edge_from = s, edge_to = t, edge_type = Link k\<rparr>,
               \<lparr>edge_from = t, edge_to = s, edge_type = Backlink\<rparr>]"
    by (simp add: edgeKey_swap)
  ultimately show "pairedEdges (es @ [\<lparr>edge_from = s, edge_to = t, edge_type = Link k\<rparr>,
               \<lparr>edge_from = t, edge_to = s, edge_type = Backlink\<rparr>])"
    by (rule pairedEdges_append)
next
  show "pairedEdges (fst (snd (ix, [], d)))" by simp
qed

lemma indexGraph_edge_types:
  "\<forall>e \<in> set (edges (fst (indexGraph ix notes))). edge_type e \<noteq> Backlink"
  unfolding indexGraph_edges deduplicateEdges_def
  by (rule dedup_paired [OF link_phase_paired]) simp

text \<open>
  C10. Every edge returned by \<open>indexGraph\<close> is a wikilink or a markdown link, never a
  backlink: each backlink follows its forward twin, which has the same key, so the
  deduplication drops it. On that output the test \<open>type !== 'backlink'\<close> of
  \<open>getBacklinks\<close> filters nothing.
\<close>

theorem indexGraph_no_backlink_edges:
  "(\<forall>e \<in> set (edges (fst (indexGraph ix notes))). \<exists>k. edge_type e = Link k)
   \<and> getBacklinks noteId (edges (fst (indexGraph ix notes)))
       = map edge_from (filter (\<lambda>e. edge_to e = noteId) (edges (fst (indexGraph ix notes))))"
proof
  show a: "\<forall>e \<in> set (edges (fst (indexGraph ix notes))). \<exists>k. edge_type e = Link k"
  proof
    fix e assume "e \<in> set (edges (fst (indexGraph ix notes)))"
    then have "edge_type e \<noteq> Backlink" using indexGraph_edge_types by blast
    then show "\<exists>k. edge_type e = Link k" by (cases "edge_type e") auto
  qed
  have "filter (\<lambda>e. edge_to e = noteId \<and> edge_type e \<noteq> Backlink) (edges (fst (indexGraph ix notes)))
      = filter (\<lambda>e. edge_to e = noteId) (edges (fst (indexGraph ix notes)))"
    by (rule filter_cong) (use indexGraph_edge_types in auto)
  then show "getBacklinks noteId (edges (fst (indexGraph ix notes)))
       = map edge_from (filter (\<lambda>e. edge_to e = noteId) (edges (fst (indexGraph ix notes))))"
    by (simp add: getBacklinks_def)
qed

theorem indexGraph_no_backlink_edges_witness:
  "\<lparr>edge_from = ''1'', edge_to = ''2'', edge_type = Link Wikilink\<rparr>
      \<in> set (edges (fst (indexGraph newIndexer scenarioNotes)))
   \<and> (\<exists>k. edge_type \<lparr>edge_from = ''1'', edge_to = ''2'', edge_type = Link Wikilink\<rparr> = Link k)
   \<and> getBacklinks ''2'' (edges (fst (indexGraph newIndexer scenarioNotes))) = [''1'']"
proof -
  let ?e = "\<lparr>edge_from = ''1'', edge_to = ''2'', edge_type = Link Wikilink\<rparr>"
  note t = indexGraph_no_backlink_edges [of newIndexer scenarioNotes "''2''"]
  have m: "?e \<in> set (edges (fst (indexGraph newIndexer scenarioNotes)))"
    by (simp add: scenario_edges)
  from t have "\<forall>e \<in> set (edges (fst (indexGraph newIndexer scenarioNotes))).
      \<exists>k. edge_type e = Link k"
    by (rule conjunct1)
  from this m have k: "\<exists>k. edge_type ?e = Link k" by (rule bspec)
  from t have "getBacklinks ''2'' (edges (fst (indexGraph newIndexer scenarioNotes)))
      = map edge_from (filter (\<lambda>e. edge_to e = ''2'')
          (edges (fst (indexGraph newIndexer scenarioNotes))))"
    by (rule conjunct2)
  then have "getBacklinks ''2'' (edges (fst (indexGraph newIndexer scenarioNotes))) = [''1'']"
    by (simp add: scenario_edges)
  from m k this show ?thesis by (intro conjI)
qed

section \<open>Self-links\<close>

lemma indexLink_self:
  "resolveLink l tm nm = Some (note_id n) \<Longrightarrow> indexLink tm nm n l st = st"
  by (cases st) (simp add: indexLink_def)

lemma home_link_resolves:
  "resolveLink \<lparr>link_target = ''Home'', link_type = Wikilink\<rparr>
     (makeTitleMap scenarioNotes) (makeNoteMap scenarioNotes) = Some (note_id homeNote)"
  by code_simp

text \<open>
  C7. A link that resolves to the note that contains it is ignored: the step of the link
  loop leaves the edge list and the degree map as they are, and the loop over a note's
  links gives the same result as over those links without the self-links.
\<close>

theorem self_link_ignored:
  "(resolveLink l tm nm = Some (note_id n) \<longrightarrow> indexLink tm nm n l (es, d) = (es, d))
   \<and> fold (indexLink tm nm n) links (es, d)
       = fold (indexLink tm nm n)
           (filter (\<lambda>l. resolveLink l tm nm \<noteq> Some (note_id n)) links) (es, d)"
proof
  show "resolveLink l tm nm = Some (note_id n) \<longrightarrow> indexLink tm nm n l (es, d) = (es, d)"
    by (simp add: indexLink_self)
next
  show "fold (indexLink tm nm n) links (es, d)
       = fold (indexLink tm nm n)
           (filter (\<lambda>l. resolveLink l tm nm \<noteq> Some (note_id n)) links) (es, d)"
  proof (induction links arbitrary: es d)
    case Nil
    then show ?case by simp
  next
    case (Cons l ls)
    show ?case
    proof (cases "resolveLink l tm nm = Some (note_id n)")
      case True
      then show ?thesis using Cons.IH [of es d] by (simp add: indexLink_self)
    next
      case False
      obtain es' d' where "indexLink tm nm n l (es, d) = (es', d')"
        by (cases "indexLink tm nm n l (es, d)")
      then show ?thesis using False Cons.IH [of es' d'] by simp
    qed
  qed
qed

theorem self_link_ignored_witness:
  "resolveLink \<lparr>link_target = ''Home'', link_type = Wikilink\<rparr>
     (makeTitleMap scenarioNotes) (makeNoteMap scenarioNotes) = Some (note_id homeNote)
   \<and> indexLink (makeTitleMap scenarioNotes) (makeNoteMap scenarioNotes) homeNote
       \<lparr>link_target = ''Home'', link_type = Wikilink\<rparr> ([], initDegree scenarioNotes)
     = ([], initDegree scenarioNotes)"
proof -
  note t = self_link_ignored [of "\<lparr>link_target = ''Home'', link_type = Wikilink\<rparr>"
      "makeTitleMap scenarioNotes" "makeNoteMap scenarioNotes" homeNote
      "[]" "initDegree scenarioNotes" "[]"]
  from t have "resolveLink \<lparr>link_target = ''Home'', link_type = Wikilink\<rparr>
       (makeTitleMap scenarioNotes) (makeNoteMap scenarioNotes) = Some (note_id homeNote)
     \<longrightarrow> indexLink (makeTitleMap scenarioNotes) (makeNoteMap scenarioNotes) homeNote
       \<lparr>link_target = ''Home'', link_type = Wikilink\<rparr> ([], initDegree scenarioNotes)
     = ([], initDegree scenarioNotes)"
    by (rule conjunct1)
  from this home_link_resolves have "indexLink (makeTitleMap scenarioNotes)
       (makeNoteMap scenarioNotes) homeNote
       \<lparr>link_target = ''Home'', link_type = Wikilink\<rparr> ([], initDegree scenarioNotes)
     = ([], initDegree scenarioNotes)"
    by (rule mp)
  from home_link_resolves this show ?thesis by (rule conjI)
qed

section \<open>The state of the regular expressions\<close>

text \<open>
  Both loops of \<open>extractLinks\<close> run until \<open>exec\<close> finds nothing, which resets \<open>lastIndex\<close>
  to 0. So a call from a new indexer leaves every \<open>lastIndex\<close> at 0, as it found them.
\<close>

lemma wikilinkLoop_lastIndex: "snd (wikilinkLoop c i ls) = 0"
proof (induction c i ls rule: wikilinkLoop.induct)
  case (1 content lastIndex links)
  obtain r j where ex: "regexExec wikilinkRegex content lastIndex = (r, j)"
    by (cases "regexExec wikilinkRegex content lastIndex")
  show ?case
  proof (cases r)
    case None
    then have "j = 0" using ex regexExec_None by simp
    then show ?thesis using ex None by (simp add: wikilinkLoop.simps [of content lastIndex links])
  next
    case (Some g)
    from "1.IH" [OF ex [symmetric] Some] show ?thesis
      using ex Some by (simp add: wikilinkLoop.simps [of content lastIndex links])
  qed
qed

lemma mdLinkLoop_lastIndex: "snd (mdLinkLoop c i ls) = 0"
proof (induction c i ls rule: mdLinkLoop.induct)
  case (1 content lastIndex links)
  obtain r j where ex: "regexExec mdLinkRegex content lastIndex = (r, j)"
    by (cases "regexExec mdLinkRegex content lastIndex")
  show ?case
  proof (cases r)
    case None
    then have "j = 0" using ex regexExec_None by simp
    then show ?thesis using ex None by (simp add: mdLinkLoop.simps [of content lastIndex links])
  next
    case (Some g)
    from "1.IH" [OF ex [symmetric] Some] show ?thesis
      using ex Some by (simp add: mdLinkLoop.simps [of content lastIndex links])
  qed
qed

lemma extractLinks_state:
  "snd (extractLinks ix c) = ix\<lparr>wikilinkLastIndex := 0, mdLinkLastIndex := 0\<rparr>"
  using wikilinkLoop_lastIndex [of c "wikilinkLastIndex ix" "[]"]
    mdLinkLoop_lastIndex [of c 0 "fst (wikilinkLoop c (wikilinkLastIndex ix) [])"]
  by (simp add: extractLinks_def split_beta)

lemma extractLinks_newIndexer: "snd (extractLinks newIndexer c) = newIndexer"
  by (simp add: extractLinks_state) (simp add: newIndexer_def)

lemma indexNote_newIndexer:
  "indexNote tm nm n (newIndexer, es, d)
     = (newIndexer, fold (indexLink tm nm n) (fst (extractLinks newIndexer (note_content n))) (es, d))"
  by (simp add: indexNote_def split_beta extractLinks_newIndexer)

lemma link_phase_newIndexer:
  "fst (fold (indexNote tm nm) ns (newIndexer, es, d)) = newIndexer"
proof (induction ns arbitrary: es d)
  case Nil
  then show ?case by simp
next
  case (Cons n ns)
  obtain es' d' where
    "fold (indexLink tm nm n) (fst (extractLinks newIndexer (note_content n))) (es, d) = (es', d')"
    by (cases "fold (indexLink tm nm n) (fst (extractLinks newIndexer (note_content n))) (es, d)")
  then show ?case using Cons.IH [of es' d'] by (simp add: indexNote_newIndexer)
qed

lemma buildNode_newIndexer: "snd (buildNode d n newIndexer) = newIndexer"
  by (simp add: buildNode_def extractTags_def newIndexer_def Let_def)

lemma buildNodes_newIndexer: "snd (buildNodes d ns newIndexer) = newIndexer"
proof (induction ns)
  case Nil
  then show ?case by simp
next
  case (Cons n ns)
  obtain node where "buildNode d n newIndexer = (node, newIndexer)"
    using buildNode_newIndexer [of d n] by (cases "buildNode d n newIndexer") simp
  then show ?case using Cons.IH by (simp add: split_beta)
qed

lemma indexGraph_newIndexer: "snd (indexGraph newIndexer notes) = newIndexer"
proof -
  let ?r = "fold (indexNote (makeTitleMap notes) (makeNoteMap notes)) notes
              (newIndexer, [], initDegree notes)"
  have "fst ?r = newIndexer" by (rule link_phase_newIndexer)
  then show ?thesis
    by (simp add: indexGraph_def Let_def split_beta buildNodes_newIndexer)
qed

lemma buildNodes_degrees:
  "map node_degree (fst (buildNodes d ns ix)) = map (\<lambda>n. degreeOf d (note_id n)) ns"
proof (induction ns arbitrary: ix)
  case Nil
  then show ?case by simp
next
  case (Cons n ns)
  then show ?case by (simp add: split_beta buildNode_def Let_def)
qed

lemma indexGraph_degrees:
  "map node_degree (nodes (fst (indexGraph ix ns)))
     = map (\<lambda>n. degreeOf (snd (snd (fold (indexNote (makeTitleMap ns) (makeNoteMap ns)) ns
                (ix, [], initDegree ns)))) (note_id n)) ns"
  by (simp add: indexGraph_def Let_def split_beta buildNodes_degrees)

lemma scenario_degrees:
  "map node_degree (nodes (fst (indexGraph newIndexer scenarioNotes))) = [2, 2, 0]"
  unfolding indexGraph_degrees by code_simp

text \<open>
  C9. Calling \<open>indexGraph\<close> a second time on the same list, in the state the first call
  left the indexer in, returns the same graph: the same degree for every node and the
  same set of unordered endpoint pairs. The only state the indexer keeps between calls,
  the \<open>lastIndex\<close> of its regular expressions, is back at its initial value, so the
  result for a list does not depend on the list indexed before either.
\<close>

theorem indexGraph_idempotent:
  "fst (indexGraph (snd (indexGraph newIndexer ns)) ns) = fst (indexGraph newIndexer ns)
   \<and> snd (indexGraph (snd (indexGraph newIndexer ns)) ns) = newIndexer
   \<and> map node_degree (nodes (fst (indexGraph (snd (indexGraph newIndexer ns)) ns)))
       = map node_degree (nodes (fst (indexGraph newIndexer ns)))
   \<and> endpoints ` set (edges (fst (indexGraph (snd (indexGraph newIndexer ns)) ns)))
       = endpoints ` set (edges (fst (indexGraph newIndexer ns)))
   \<and> fst (indexGraph (snd (indexGraph newIndexer ms)) ns) = fst (indexGraph newIndexer ns)"
  by (simp add: indexGraph_newIndexer)

theorem indexGraph_idempotent_witness:
  "map node_degree
      (nodes (fst (indexGraph (snd (indexGraph newIndexer scenarioNotes)) scenarioNotes)))
     = [2, 2, 0]
   \<and> edges (fst (indexGraph (snd (indexGraph newIndexer scenarioNotes)) scenarioNotes))
     = [\<lparr>edge_from = ''1'', edge_to = ''2'', edge_type = Link Wikilink\<rparr>]"
proof -
  note t = indexGraph_idempotent [of scenarioNotes]
  from t have "fst (indexGraph (snd (indexGraph newIndexer scenarioNotes)) scenarioNotes)
      = fst (indexGraph newIndexer scenarioNotes)"
    by (rule conjunct1)
  then show ?thesis by (simp only: scenario_degrees scenario_edges)
qed

section \<open>The sum of the degrees\<close>

lemma fold_noteMap_dom:
  "dom (fold (\<lambda>n m. m(note_id n \<mapsto> n)) ns m) = dom m \<union> note_id ` set ns"
  by (induction ns arbitrary: m) auto

lemma makeNoteMap_dom: "dom (makeNoteMap ns) = note_id ` set ns"
  by (simp add: makeNoteMap_def fold_noteMap_dom)

lemma fold_titleMap_Some:
  "fold (\<lambda>n m. m(toLowerCase (note_title n) \<mapsto> note_id n)) ns m k = Some i \<Longrightarrow>
     m k = Some i \<or> (\<exists>n \<in> set ns. toLowerCase (note_title n) = k \<and> note_id n = i)"
proof (induction ns arbitrary: m)
  case Nil
  then show ?case by simp
next
  case (Cons n ns)
  from Cons.prems
  have "fold (\<lambda>n m. m(toLowerCase (note_title n) \<mapsto> note_id n)) ns
          (m(toLowerCase (note_title n) \<mapsto> note_id n)) k = Some i"
    by (simp only: fold_simps)
  from Cons.IH [OF this] show ?case
    by (auto split: if_splits)
qed

lemma makeTitleMap_Some:
  "makeTitleMap ns k = Some i \<Longrightarrow> \<exists>n \<in> set ns. toLowerCase (note_title n) = k \<and> note_id n = i"
  using fold_titleMap_Some [of ns Map.empty k i] by (simp add: makeTitleMap_def)

lemma fold_titleMap_dom:
  "dom (fold (\<lambda>n m. m(toLowerCase (note_title n) \<mapsto> note_id n)) ns m)
     = dom m \<union> (\<lambda>n. toLowerCase (note_title n)) ` set ns"
  by (induction ns arbitrary: m) auto

lemma makeTitleMap_dom:
  "dom (makeTitleMap ns) = (\<lambda>n. toLowerCase (note_title n)) ` set ns"
  by (simp add: makeTitleMap_def fold_titleMap_dom)

lemma resolveLink_titleMap_or_target:
  "resolveLink l tm nm = Some t \<Longrightarrow> (nm t \<noteq> None) \<or> (\<exists>k. tm k = Some t)"
  by (auto simp: resolveLink_def Let_def split: if_splits)

lemma resolveLink_in_ids:
  assumes "resolveLink l (makeTitleMap ns) (makeNoteMap ns) = Some t"
  shows "t \<in> note_id ` set ns"
proof -
  from resolveLink_titleMap_or_target [OF assms]
  show ?thesis
  proof
    assume "makeNoteMap ns t \<noteq> None"
    then have "t \<in> dom (makeNoteMap ns)" by (simp add: domIff)
    then show ?thesis by (simp only: makeNoteMap_dom)
  next
    assume "\<exists>k. makeTitleMap ns k = Some t"
    then obtain k where "makeTitleMap ns k = Some t" ..
    from makeTitleMap_Some [OF this] show ?thesis by auto
  qed
qed

lemma fold_initDegree:
  "degreeOf (fold (\<lambda>n m. m(note_id n \<mapsto> 0)) ns m) k
     = (if k \<in> note_id ` set ns then 0 else degreeOf m k)"
  by (induction ns arbitrary: m) (auto simp: degreeOf_def)

lemma initDegree_zero: "degreeOf (initDegree ns) k = 0"
  by (simp add: initDegree_def fold_initDegree) (simp add: degreeOf_def)

lemma degree_bump:
  assumes "finite I" and "k \<in> I"
  shows "(\<Sum>j \<in> I. degreeOf (d(k \<mapsto> degreeOf d k + 1)) j) = (\<Sum>j \<in> I. degreeOf d j) + 1"
proof -
  define d' where "d' = d(k \<mapsto> degreeOf d k + 1)"
  have at_k: "degreeOf d' k = degreeOf d k + 1" by (simp add: d'_def degreeOf_def)
  have other: "\<And>j. j \<in> I - {k} \<Longrightarrow> degreeOf d' j = degreeOf d j"
    by (simp add: d'_def degreeOf_def)
  have "(\<Sum>j \<in> I. degreeOf d' j) = degreeOf d' k + (\<Sum>j \<in> I - {k}. degreeOf d' j)"
    using assms by (rule sum.remove)
  also have "(\<Sum>j \<in> I - {k}. degreeOf d' j) = (\<Sum>j \<in> I - {k}. degreeOf d j)"
    using other by (rule sum.cong [OF refl])
  finally have "(\<Sum>j \<in> I. degreeOf d' j)
      = (degreeOf d k + (\<Sum>j \<in> I - {k}. degreeOf d j)) + 1"
    by (simp only: at_k add.commute add.left_commute add.assoc)
  also have "degreeOf d k + (\<Sum>j \<in> I - {k}. degreeOf d j) = (\<Sum>j \<in> I. degreeOf d j)"
    using assms by (rule sum.remove [symmetric])
  finally show ?thesis by (simp only: d'_def)
qed

lemma indexLink_degree_sum:
  assumes "finite I" and "note_id n \<in> I" and "[] \<notin> I"
    and "\<forall>t. resolveLink l tm nm = Some t \<longrightarrow> t \<in> I"
  shows "(\<Sum>j \<in> I. degreeOf (snd (indexLink tm nm n l (es, d))) j)
       = (\<Sum>j \<in> I. degreeOf d j) + (if resolvedNonSelf tm nm n l then 2 else 0)"
proof (cases "resolveLink l tm nm")
  case None
  then show ?thesis by (simp add: indexLink_def resolvedNonSelf_def)
next
  case (Some t)
  with assms(4) have tI: "t \<in> I" by simp
  with assms(3) have tne: "t \<noteq> []" by auto
  show ?thesis
  proof (cases "t = note_id n")
    case True
    then show ?thesis using Some by (simp add: indexLink_def resolvedNonSelf_def)
  next
    case False
    let ?d1 = "d(note_id n \<mapsto> degreeOf d (note_id n) + 1)"
    let ?d2 = "?d1(t \<mapsto> degreeOf ?d1 t + 1)"
    have "snd (indexLink tm nm n l (es, d)) = ?d2"
      using Some False tne by (simp add: indexLink_def Let_def)
    moreover have "(\<Sum>j \<in> I. degreeOf ?d2 j) = (\<Sum>j \<in> I. degreeOf ?d1 j) + 1"
      using assms(1) tI by (rule degree_bump)
    moreover have "(\<Sum>j \<in> I. degreeOf ?d1 j) = (\<Sum>j \<in> I. degreeOf d j) + 1"
      using assms(1,2) by (rule degree_bump)
    ultimately show ?thesis using Some False by (simp add: resolvedNonSelf_def)
  qed
qed

lemma links_degree_sum:
  assumes "finite I" and "note_id n \<in> I" and "[] \<notin> I"
    and "\<forall>l t. resolveLink l tm nm = Some t \<longrightarrow> t \<in> I"
  shows "(\<Sum>j \<in> I. degreeOf (snd (fold (indexLink tm nm n) ls (es, d))) j)
       = (\<Sum>j \<in> I. degreeOf d j) + 2 * length (filter (resolvedNonSelf tm nm n) ls)"
proof (induction ls arbitrary: es d)
  case Nil
  then show ?case by simp
next
  case (Cons l ls)
  obtain es' d' where st: "indexLink tm nm n l (es, d) = (es', d')"
    by (cases "indexLink tm nm n l (es, d)")
  have "(\<Sum>j \<in> I. degreeOf d' j)
       = (\<Sum>j \<in> I. degreeOf d j) + (if resolvedNonSelf tm nm n l then 2 else 0)"
    using indexLink_degree_sum [OF assms(1,2,3), of l tm nm es d] assms(4) st by simp
  then show ?case using Cons.IH [of es' d'] st by simp
qed

lemma link_phase_degree_sum:
  assumes "finite I" and "[] \<notin> I"
    and "\<forall>l t. resolveLink l tm nm = Some t \<longrightarrow> t \<in> I"
  shows "note_id ` set ms \<subseteq> I \<Longrightarrow>
     (\<Sum>j \<in> I. degreeOf (snd (snd (fold (indexNote tm nm) ms (newIndexer, es, d)))) j)
       = (\<Sum>j \<in> I. degreeOf d j)
         + 2 * sum_list (map (\<lambda>n. length (filter (resolvedNonSelf tm nm n)
                                   (fst (extractLinks newIndexer (note_content n))))) ms)"
proof (induction ms arbitrary: es d)
  case Nil
  then show ?case by simp
next
  case (Cons n ms)
  then have nI: "note_id n \<in> I" and sub: "note_id ` set ms \<subseteq> I" by simp_all
  let ?ls = "fst (extractLinks newIndexer (note_content n))"
  obtain es' d' where st: "fold (indexLink tm nm n) ?ls (es, d) = (es', d')"
    by (cases "fold (indexLink tm nm n) ?ls (es, d)")
  have "(\<Sum>j \<in> I. degreeOf d' j)
       = (\<Sum>j \<in> I. degreeOf d j) + 2 * length (filter (resolvedNonSelf tm nm n) ?ls)"
    using links_degree_sum [OF assms(1) nI assms(2,3), of ?ls es d] st by simp
  then show ?case using Cons.IH [OF sub, of es' d'] st
    by (simp add: indexNote_newIndexer)
qed

lemma sharedId_degreeSum: "degreeSum (fst (indexGraph newIndexer sharedIdNotes)) = 3"
  unfolding degreeSum_def indexGraph_degrees by code_simp

lemma sharedId_linkCount: "resolvedLinkCount sharedIdNotes = 1"
  by code_simp

lemma emptyId_degreeSum: "degreeSum (fst (indexGraph newIndexer emptyIdNotes)) = 0"
  unfolding degreeSum_def indexGraph_degrees by code_simp

lemma emptyId_linkCount: "resolvedLinkCount emptyIdNotes = 1"
  by code_simp

lemma repeated_linkCount: "resolvedLinkCount repeatedLinkNotes = 2"
  by code_simp

lemma repeated_degrees:
  "map node_degree (nodes (fst (indexGraph newIndexer repeatedLinkNotes))) = [2, 2]"
  unfolding indexGraph_degrees by code_simp

lemma repeated_edges:
  "edges (fst (indexGraph newIndexer repeatedLinkNotes))
     = [\<lparr>edge_from = ''a'', edge_to = ''b'', edge_type = Link Wikilink\<rparr>]"
  unfolding indexGraph_edges by code_simp

lemma repeated_degreeSum: "degreeSum (fst (indexGraph newIndexer repeatedLinkNotes)) = 4"
  unfolding degreeSum_def indexGraph_degrees by code_simp

lemma repeated_distinctCount: "distinctLinkCount repeatedLinkNotes = 1"
  by code_simp

text \<open>
  C2, as stated, for every list of notes: the degrees of the returned nodes add up to
  twice the number of resolved links that are not self-links. With every occurrence of
  a link counted, this fails when two notes share an id (the degree map has one entry
  per id, and each of the notes with that id gets a node carrying the whole count) and
  when a link resolves to a note whose id is the empty string (the test
  \<open>targetId && ...\<close> takes that id for no result). With a link counted once per pair of
  source and target, it fails as soon as a note repeats a link.
\<close>

theorem degree_sum_shared_id_counterexample:
  "degreeSum (fst (indexGraph newIndexer sharedIdNotes)) \<noteq> 2 * resolvedLinkCount sharedIdNotes
   \<and> degreeSum (fst (indexGraph newIndexer emptyIdNotes)) \<noteq> 2 * resolvedLinkCount emptyIdNotes
   \<and> degreeSum (fst (indexGraph newIndexer repeatedLinkNotes))
       \<noteq> 2 * distinctLinkCount repeatedLinkNotes"
  by (simp add: sharedId_degreeSum sharedId_linkCount emptyId_degreeSum emptyId_linkCount
      repeated_degreeSum repeated_distinctCount)

lemma indexGraph_degree_total:
  assumes "distinct (map note_id ns)" and "[] \<notin> note_id ` set ns"
  shows "degreeSum (fst (indexGraph newIndexer ns)) = 2 * resolvedLinkCount ns"
proof -
  let ?I = "note_id ` set ns"
  let ?tm = "makeTitleMap ns" and ?nm = "makeNoteMap ns"
  let ?D = "snd (snd (fold (indexNote ?tm ?nm) ns (newIndexer, [], initDegree ns)))"
  have "degreeSum (fst (indexGraph newIndexer ns))
      = sum_list (map (degreeOf ?D) (map note_id ns))"
    by (simp add: degreeSum_def indexGraph_degrees comp_def)
  also have "\<dots> = (\<Sum>j \<in> set (map note_id ns). degreeOf ?D j)"
    using assms(1) by (rule sum_list_distinct_conv_sum_set)
  also have "\<dots> = (\<Sum>j \<in> ?I. degreeOf ?D j)" by simp
  also have "\<dots> = (\<Sum>j \<in> ?I. degreeOf (initDegree ns) j) + 2 * resolvedLinkCount ns"
    unfolding resolvedLinkCount_def
    by (rule link_phase_degree_sum) (use assms(2) resolveLink_in_ids in auto)
  also have "(\<Sum>j \<in> ?I. degreeOf (initDegree ns) j) = 0"
    by (simp add: initDegree_zero)
  finally show ?thesis by simp
qed

text \<open>
  The degree of a single id: every occurrence of a link that resolves to another note
  adds one to the degree of its source and one to the degree of its target.
\<close>

lemma endpointCount_append:
  "endpointCount (xs @ ys) k = endpointCount xs k + endpointCount ys k"
  by (simp add: endpointCount_def)

lemma endpointCount_Nil: "endpointCount [] k = 0"
  by (simp add: endpointCount_def)

lemma noteOccurrences_Cons:
  "noteOccurrences tm nm n (l # ls) = noteOccurrences tm nm n [l] @ noteOccurrences tm nm n ls"
  by (simp add: noteOccurrences_def)

lemma noteOccurrences_Nil: "noteOccurrences tm nm n [] = []"
  by (simp add: noteOccurrences_def)

lemma length_noteOccurrences:
  "length (noteOccurrences tm nm n ls) = length (filter (resolvedNonSelf tm nm n) ls)"
  by (induction ls) (auto simp: noteOccurrences_def resolvedNonSelf_def split: option.splits)

lemma length_linkOccurrences: "length (linkOccurrences ns) = resolvedLinkCount ns"
  by (simp add: linkOccurrences_def resolvedLinkCount_def length_concat comp_def
      length_noteOccurrences)

lemma indexLink_degree:
  assumes "\<forall>t. resolveLink l tm nm = Some t \<longrightarrow> t \<noteq> []"
  shows "degreeOf (snd (indexLink tm nm n l (es, d))) k
           = degreeOf d k + endpointCount (noteOccurrences tm nm n [l]) k"
proof (cases "resolveLink l tm nm")
  case None
  then show ?thesis
    by (simp add: indexLink_def noteOccurrences_def endpointCount_def)
next
  case (Some t)
  with assms have tne: "t \<noteq> []" by simp
  show ?thesis
  proof (cases "t = note_id n")
    case True
    then show ?thesis using Some
      by (simp add: indexLink_def noteOccurrences_def endpointCount_def)
  next
    case False
    then show ?thesis using Some tne
      by (auto simp: indexLink_def Let_def noteOccurrences_def endpointCount_def degreeOf_def)
  qed
qed

lemma links_degree:
  assumes "\<forall>l t. resolveLink l tm nm = Some t \<longrightarrow> t \<noteq> []"
  shows "degreeOf (snd (fold (indexLink tm nm n) ls (es, d))) k
           = degreeOf d k + endpointCount (noteOccurrences tm nm n ls) k"
proof (induction ls arbitrary: es d)
  case Nil
  then show ?case by (simp add: noteOccurrences_Nil endpointCount_Nil)
next
  case (Cons l ls)
  obtain es' d' where st: "indexLink tm nm n l (es, d) = (es', d')"
    by (cases "indexLink tm nm n l (es, d)")
  have "degreeOf d' k = degreeOf d k + endpointCount (noteOccurrences tm nm n [l]) k"
    using indexLink_degree [of l tm nm n es d k] assms st by simp
  then show ?case using Cons.IH [of es' d'] st
    by (simp add: noteOccurrences_Cons [of tm nm n l ls] endpointCount_append)
qed

lemma link_phase_degree:
  assumes "\<forall>l t. resolveLink l tm nm = Some t \<longrightarrow> t \<noteq> []"
  shows "degreeOf (snd (snd (fold (indexNote tm nm) ms (newIndexer, es, d)))) k
           = degreeOf d k
             + endpointCount (concat (map (\<lambda>n. noteOccurrences tm nm n
                   (fst (extractLinks newIndexer (note_content n)))) ms)) k"
proof (induction ms arbitrary: es d)
  case Nil
  then show ?case by (simp add: endpointCount_Nil)
next
  case (Cons n ms)
  let ?ls = "fst (extractLinks newIndexer (note_content n))"
  obtain es' d' where st: "fold (indexLink tm nm n) ?ls (es, d) = (es', d')"
    by (cases "fold (indexLink tm nm n) ?ls (es, d)")
  have "degreeOf d' k = degreeOf d k + endpointCount (noteOccurrences tm nm n ?ls) k"
    using links_degree [OF assms, of n ?ls es d k] st by simp
  then show ?case using Cons.IH [of es' d'] st
    by (simp add: indexNote_newIndexer endpointCount_append)
qed

lemma buildNodes_ids: "map node_id (fst (buildNodes d ns ix)) = map note_id ns"
proof (induction ns arbitrary: ix)
  case Nil
  then show ?case by simp
next
  case (Cons n ns)
  then show ?case by (simp add: split_beta buildNode_def Let_def)
qed

lemma indexGraph_ids: "map node_id (nodes (fst (indexGraph ix ns))) = map note_id ns"
  by (simp add: indexGraph_def Let_def split_beta buildNodes_ids)

lemma indexGraph_degreeFromLinks:
  assumes "[] \<notin> note_id ` set ns"
  shows "map node_degree (nodes (fst (indexGraph newIndexer ns)))
           = map (\<lambda>n. degreeFromLinks ns (note_id n)) ns"
proof -
  have ne: "\<forall>l t. resolveLink l (makeTitleMap ns) (makeNoteMap ns) = Some t \<longrightarrow> t \<noteq> []"
  proof (intro allI impI)
    fix l t assume "resolveLink l (makeTitleMap ns) (makeNoteMap ns) = Some t"
    from resolveLink_in_ids [OF this] have "t \<in> note_id ` set ns" .
    with assms show "t \<noteq> []" by metis
  qed
  show ?thesis
    unfolding indexGraph_degrees degreeFromLinks_def linkOccurrences_def
    by (simp add: link_phase_degree [OF ne] initDegree_zero)
qed

lemma repeated_occurrences:
  "linkOccurrences repeatedLinkNotes = [(''a'', ''b''), (''a'', ''b'')]"
  by code_simp

lemma repeated_degreeFromLinks:
  "map (\<lambda>n. degreeFromLinks repeatedLinkNotes (note_id n)) repeatedLinkNotes = [2, 2]"
  by code_simp

text \<open>
  C2, amended: for every list of notes whose ids are pairwise distinct and none of which
  is the empty string, there is one node per note, and the degree of a note's node is
  the number of link occurrences that resolve to another note and have the note as their
  source, plus the number of those that have it as their target: each such occurrence
  adds one to the degree of both its endpoints. So the degrees add up to twice the
  number of these occurrences. A link that occurs twice counts twice, although the two
  occurrences leave one edge.
\<close>

theorem degree_sum_twice_links:
  assumes "distinct (map note_id ns)" and "[] \<notin> note_id ` set ns"
  shows "map node_id (nodes (fst (indexGraph newIndexer ns))) = map note_id ns
       \<and> map node_degree (nodes (fst (indexGraph newIndexer ns)))
           = map (\<lambda>n. degreeFromLinks ns (note_id n)) ns
       \<and> resolvedLinkCount ns = length (linkOccurrences ns)
       \<and> degreeSum (fst (indexGraph newIndexer ns)) = 2 * resolvedLinkCount ns"
  using indexGraph_ids [of newIndexer ns] indexGraph_degreeFromLinks [OF assms(2)]
    length_linkOccurrences [of ns] indexGraph_degree_total [OF assms]
  by simp

theorem degree_sum_twice_links_witness:
  "distinct (map note_id repeatedLinkNotes) \<and> [] \<notin> note_id ` set repeatedLinkNotes
   \<and> map node_degree (nodes (fst (indexGraph newIndexer repeatedLinkNotes))) = [2, 2]
   \<and> linkOccurrences repeatedLinkNotes = [(''a'', ''b''), (''a'', ''b'')]
   \<and> degreeSum (fst (indexGraph newIndexer repeatedLinkNotes)) = 4
   \<and> resolvedLinkCount repeatedLinkNotes = 2
   \<and> length (edges (fst (indexGraph newIndexer repeatedLinkNotes))) = 1"
proof -
  have h1: "distinct (map note_id repeatedLinkNotes)" by (simp add: repeatedLinkNotes_def)
  have h2: "[] \<notin> note_id ` set repeatedLinkNotes" by (simp add: repeatedLinkNotes_def)
  note t = degree_sum_twice_links [OF h1 h2]
  from t have "map node_degree (nodes (fst (indexGraph newIndexer repeatedLinkNotes)))
      = map (\<lambda>n. degreeFromLinks repeatedLinkNotes (note_id n)) repeatedLinkNotes"
    by blast
  then have d: "map node_degree (nodes (fst (indexGraph newIndexer repeatedLinkNotes))) = [2, 2]"
    by (simp only: repeated_degreeFromLinks)
  from t have "degreeSum (fst (indexGraph newIndexer repeatedLinkNotes))
      = 2 * resolvedLinkCount repeatedLinkNotes"
    by blast
  then have c: "degreeSum (fst (indexGraph newIndexer repeatedLinkNotes)) = 4"
    by (simp only: repeated_linkCount)
  have e: "length (edges (fst (indexGraph newIndexer repeatedLinkNotes))) = 1"
    by (simp add: repeated_edges)
  from h1 h2 d repeated_occurrences c repeated_linkCount e show ?thesis by (intro conjI)
qed

section \<open>The order of the resolution rules\<close>

lemma titleMap_hasTitle: "(makeTitleMap ns (toLowerCase s) \<noteq> None) = hasTitle ns s"
proof -
  have "(makeTitleMap ns (toLowerCase s) \<noteq> None) = (toLowerCase s \<in> dom (makeTitleMap ns))"
    by (simp add: domIff)
  also have "\<dots> = hasTitle ns s"
    unfolding makeTitleMap_dom hasTitle_def image_iff by (rule bex_cong [OF refl]) auto
  finally show ?thesis .
qed

lemma titleMap_titleMatch:
  assumes "hasTitle ns s"
  shows "titleMatch ns s (makeTitleMap ns (toLowerCase s))"
proof -
  from assms have "makeTitleMap ns (toLowerCase s) \<noteq> None" by (simp only: titleMap_hasTitle)
  then obtain i where i: "makeTitleMap ns (toLowerCase s) = Some i" by auto
  from makeTitleMap_Some [OF i] show ?thesis by (simp add: titleMatch_def i)
qed

lemma noteMap_has: "(makeNoteMap ns t \<noteq> None) = (t \<in> note_id ` set ns)"
proof -
  have "(makeNoteMap ns t \<noteq> None) = (t \<in> dom (makeNoteMap ns))" by (simp add: domIff)
  then show ?thesis by (simp only: makeNoteMap_dom)
qed

lemma resolveLink_unfold:
  "resolveLink l (makeTitleMap ns) (makeNoteMap ns) =
     (if link_target l \<in> note_id ` set ns then Some (link_target l)
      else if hasTitle ns (link_target l) then makeTitleMap ns (toLowerCase (link_target l))
      else if hasTitle ns (stripDotSlash (stripMd (link_target l)))
           then makeTitleMap ns (toLowerCase (stripDotSlash (stripMd (link_target l))))
      else if hasTitle ns (basenameOrCleaned (stripDotSlash (stripMd (link_target l))))
           then makeTitleMap ns (toLowerCase (basenameOrCleaned (stripDotSlash (stripMd (link_target l)))))
      else None)"
  unfolding resolveLink_def Let_def noteMap_has titleMap_hasTitle basenameOrCleaned_def
  by (rule refl)

lemma untitled_resolve:
  "resolveLink \<lparr>link_target = ''x/'', link_type = Wikilink\<rparr>
     (makeTitleMap untitledNotes) (makeNoteMap untitledNotes) = None"
  by code_simp

lemma nonexistent_resolve:
  "resolveLink \<lparr>link_target = ''Nonexistent Note'', link_type = Wikilink\<rparr>
     (makeTitleMap projectNotes) (makeNoteMap projectNotes) = None"
  by code_simp

text \<open>
  C3, as stated, with the basename of rule 4 being the segment after the last slash. It
  fails for a target that ends in a slash when a note has the empty title: the segment is
  empty and equals that title, but \<open>resolveLink\<close> replaces an empty segment by the cleaned
  target (\<open>pop() || cleaned\<close>) and finds nothing.
\<close>

theorem resolveLink_basename_counterexample:
  "\<not> resolutionRules lastSegment untitledNotes ''x/''
       (resolveLink \<lparr>link_target = ''x/'', link_type = Wikilink\<rparr>
          (makeTitleMap untitledNotes) (makeNoteMap untitledNotes))"
  unfolding untitled_resolve by code_simp

text \<open>
  C3, amended: the rules are tried in the order id, title, cleaned target, basename, and
  the first that matches gives the result, where the basename of rule 4 is the segment
  after the last slash of the cleaned target when that segment is not empty, and the
  cleaned target itself otherwise. A link that matches no rule resolves to nothing and
  leaves the edge list and the degrees unchanged.
\<close>

theorem resolveLink_rule_order:
  "resolutionRules basenameOrCleaned ns (link_target l)
     (resolveLink l (makeTitleMap ns) (makeNoteMap ns))
   \<and> (resolveLink l (makeTitleMap ns) (makeNoteMap ns) = None
        \<longrightarrow> indexLink (makeTitleMap ns) (makeNoteMap ns) n l (es, d) = (es, d))"
proof
  show "resolutionRules basenameOrCleaned ns (link_target l)
     (resolveLink l (makeTitleMap ns) (makeNoteMap ns))"
    unfolding resolveLink_unfold resolutionRules_def Let_def
    by (simp add: titleMap_titleMatch)
next
  show "resolveLink l (makeTitleMap ns) (makeNoteMap ns) = None
        \<longrightarrow> indexLink (makeTitleMap ns) (makeNoteMap ns) n l (es, d) = (es, d)"
    by (simp add: indexLink_def)
qed

theorem resolveLink_rule_order_witness:
  "resolveLink \<lparr>link_target = ''Nonexistent Note'', link_type = Wikilink\<rparr>
     (makeTitleMap projectNotes) (makeNoteMap projectNotes) = None
   \<and> indexLink (makeTitleMap projectNotes) (makeNoteMap projectNotes) homeNote
       \<lparr>link_target = ''Nonexistent Note'', link_type = Wikilink\<rparr> ([], Map.empty)
     = ([], Map.empty)
   \<and> resolutionRules basenameOrCleaned projectNotes ''Nonexistent Note'' None"
proof -
  note t = resolveLink_rule_order [of projectNotes
      "\<lparr>link_target = ''Nonexistent Note'', link_type = Wikilink\<rparr>" homeNote "[]" Map.empty]
  from t have "resolveLink \<lparr>link_target = ''Nonexistent Note'', link_type = Wikilink\<rparr>
       (makeTitleMap projectNotes) (makeNoteMap projectNotes) = None
     \<longrightarrow> indexLink (makeTitleMap projectNotes) (makeNoteMap projectNotes) homeNote
       \<lparr>link_target = ''Nonexistent Note'', link_type = Wikilink\<rparr> ([], Map.empty)
     = ([], Map.empty)"
    by (rule conjunct2)
  from this nonexistent_resolve have a: "indexLink (makeTitleMap projectNotes)
       (makeNoteMap projectNotes) homeNote
       \<lparr>link_target = ''Nonexistent Note'', link_type = Wikilink\<rparr> ([], Map.empty)
     = ([], Map.empty)"
    by (rule mp)
  from t have "resolutionRules basenameOrCleaned projectNotes
      (link_target \<lparr>link_target = ''Nonexistent Note'', link_type = Wikilink\<rparr>)
      (resolveLink \<lparr>link_target = ''Nonexistent Note'', link_type = Wikilink\<rparr>
         (makeTitleMap projectNotes) (makeNoteMap projectNotes))"
    by (rule conjunct1)
  then have b: "resolutionRules basenameOrCleaned projectNotes ''Nonexistent Note'' None"
    by (simp add: nonexistent_resolve)
  from nonexistent_resolve a b show ?thesis by (intro conjI)
qed

section \<open>The breadth-first search\<close>

lemma neighborsOf_pushAdjacency:
  "neighborsOf (pushAdjacency e adj) k
     = neighborsOf adj k @ (if edge_from e = k then [edge_to e] else [])"
  by (cases "map_of adj (edge_from e)")
     (auto simp: neighborsOf_def pushAdjacency_def update_conv')

lemma neighborsOf_fold:
  "neighborsOf (fold pushAdjacency es adj) k
     = neighborsOf adj k @ map edge_to (filter (\<lambda>e. edge_from e = k) es)"
  by (induction es arbitrary: adj) (simp_all add: neighborsOf_pushAdjacency)

lemma neighborsOf_buildAdjacency:
  "neighborsOf (buildAdjacency es) k = map edge_to (filter (\<lambda>e. edge_from e = k) es)"
  by (simp add: buildAdjacency_def neighborsOf_fold) (simp add: neighborsOf_def)

lemma set_neighborsOf: "set (neighborsOf (buildAdjacency es) k) = {y. (k, y) \<in> edgeRel es}"
  by (auto simp: neighborsOf_buildAdjacency edgeRel_def)

lemma isPath_snoc:
  "isPath es p \<Longrightarrow> (last p, b) \<in> edgeRel es \<Longrightarrow> isPath es (p @ [b])"
  by (induction es p rule: isPath.induct) auto

lemma pathFromTo_snoc:
  assumes "pathFromTo es a x p" and "(x, y) \<in> edgeRel es"
  shows "pathFromTo es a y (p @ [y])"
  using assms by (auto simp: pathFromTo_def isPath_snoc)

lemma isPath_rtrancl: "isPath es p \<Longrightarrow> (hd p, last p) \<in> (edgeRel es)\<^sup>*"
proof (induction es p rule: isPath.induct)
  case (1 es)
  then show ?case by simp
next
  case (2 es a)
  then show ?case by simp
next
  case (3 es a b p)
  then have "(a, b) \<in> edgeRel es" and "(b, last (b # p)) \<in> (edgeRel es)\<^sup>*" by simp_all
  then show ?case by (simp add: converse_rtrancl_into_rtrancl)
qed

lemma pathFromTo_rtrancl: "pathFromTo es a b p \<Longrightarrow> (a, b) \<in> (edgeRel es)\<^sup>*"
  using isPath_rtrancl [of es p] by (auto simp: pathFromTo_def)

text \<open>What the inner loop over the neighbours does to the visited set and the queue.\<close>

lemma visitNeighbor_step:
  "visitNeighbor p n (v, q)
     = (if n \<notin> v then (insert n v, q @ [\<lparr>item_id = n, item_path = p @ [n]\<rparr>]) else (v, q))"
  by (simp add: visitNeighbor_def)

lemma visitNeighbors_visited:
  "fst (fold (visitNeighbor p) ns (v, q)) = v \<union> set ns"
  by (induction ns arbitrary: v q) (auto simp: visitNeighbor_step)

lemma visitNeighbors_queue:
  "\<exists>new. snd (fold (visitNeighbor p) ns (v, q)) = q @ new
      \<and> item_id ` set new = set ns - v
      \<and> (\<forall>item \<in> set new. item_path item = p @ [item_id item])"
proof (induction ns arbitrary: v q)
  case Nil
  then show ?case by simp
next
  case (Cons n ns)
  show ?case
  proof (cases "n \<in> v")
    case True
    from Cons.IH [of v q] obtain new where
      "snd (fold (visitNeighbor p) ns (v, q)) = q @ new"
      "item_id ` set new = set ns - v"
      "\<forall>item \<in> set new. item_path item = p @ [item_id item]" by blast
    then show ?thesis using True by (auto simp: visitNeighbor_step)
  next
    case False
    let ?i = "\<lparr>item_id = n, item_path = p @ [n]\<rparr>"
    from Cons.IH [of "insert n v" "q @ [?i]"] obtain new where
      n1: "snd (fold (visitNeighbor p) ns (insert n v, q @ [?i])) = (q @ [?i]) @ new"
      and n2: "item_id ` set new = set ns - insert n v"
      and n3: "\<forall>item \<in> set new. item_path item = p @ [item_id item]" by blast
    have "snd (fold (visitNeighbor p) (n # ns) (v, q)) = q @ (?i # new)"
      using False n1 by (simp add: visitNeighbor_step)
    moreover have "item_id ` set (?i # new) = set (n # ns) - v"
      using False n2 by auto
    moreover have "\<forall>item \<in> set (?i # new). item_path item = p @ [item_id item]"
      using n3 by simp
    ultimately show ?thesis by blast
  qed
qed

lemma bfsLoop_step:
  "bfsLoop adj t (c # q) v =
     (if item_id c = t then Some (item_path c)
      else bfsLoop adj t
             (snd (fold (visitNeighbor (item_path c)) (neighborsOf adj (item_id c)) (v, q)))
             (fst (fold (visitNeighbor (item_path c)) (neighborsOf adj (item_id c)) (v, q))))"
  by (simp add: bfsLoop.simps split_beta)

lemma bfs_sound:
  "adj = buildAdjacency es \<Longrightarrow>
   \<forall>item \<in> set q. pathFromTo es f (item_id item) (item_path item) \<Longrightarrow>
   bfsLoop adj t q v = Some p \<Longrightarrow> pathFromTo es f t p"
proof (induction adj t q v rule: bfsLoop.induct)
  case (1 adjacency toId visited)
  then show ?case by (simp add: bfsLoop.simps)
next
  case (2 adjacency toId current queue visited)
  show ?case
  proof (cases "item_id current = toId")
    case True
    then have "p = item_path current" using "2.prems"(3) by (simp add: bfsLoop_step)
    then show ?thesis using "2.prems"(2) True by auto
  next
    case False
    let ?r = "fold (visitNeighbor (item_path current))
                (neighborsOf adjacency (item_id current)) (visited, queue)"
    from visitNeighbors_queue [of "item_path current"
        "neighborsOf adjacency (item_id current)" visited queue]
    obtain new where q': "snd ?r = queue @ new"
      and ids: "item_id ` set new = set (neighborsOf adjacency (item_id current)) - visited"
      and paths: "\<forall>item \<in> set new. item_path item = item_path current @ [item_id item]"
      by blast
    have cur: "pathFromTo es f (item_id current) (item_path current)"
      using "2.prems"(2) by simp
    have "\<forall>item \<in> set (snd ?r). pathFromTo es f (item_id item) (item_path item)"
    proof
      fix item assume "item \<in> set (snd ?r)"
      then consider "item \<in> set queue" | "item \<in> set new" using q' by auto
      then show "pathFromTo es f (item_id item) (item_path item)"
      proof cases
        case 1
        then show ?thesis using "2.prems"(2) by simp
      next
        case 2
        then have "item_id item \<in> set (neighborsOf adjacency (item_id current))"
          using ids by blast
        then have "(item_id current, item_id item) \<in> edgeRel es"
          using "2.prems"(1) by (simp add: set_neighborsOf)
        from pathFromTo_snoc [OF cur this] show ?thesis using paths 2 by simp
      qed
    qed
    moreover have "bfsLoop adjacency toId (snd ?r) (fst ?r) = Some p"
      using "2.prems"(3) False by (simp add: bfsLoop_step)
    ultimately show ?thesis
      using "2.IH" [OF False refl prod.collapse "2.prems"(1)] by blast
  qed
qed

lemma closed_rtrancl:
  assumes "\<forall>x \<in> C. \<forall>y. (x, y) \<in> R \<longrightarrow> y \<in> C" and "(x, t) \<in> R\<^sup>*" and "x \<in> C"
  shows "t \<in> C"
  using assms(2,3)
proof (induction rule: rtrancl_induct)
  case base
  then show ?case .
next
  case (step y z)
  then show ?case using assms(1) by blast
qed

lemma bfsInv_step:
  assumes adj: "adj = buildAdjacency es" and inv: "bfsInv es t (c # q) v"
    and ne: "item_id c \<noteq> t"
  shows "bfsInv es t
           (snd (fold (visitNeighbor (item_path c)) (neighborsOf adj (item_id c)) (v, q)))
           (fst (fold (visitNeighbor (item_path c)) (neighborsOf adj (item_id c)) (v, q)))"
proof -
  let ?ns = "neighborsOf adj (item_id c)"
  let ?r = "fold (visitNeighbor (item_path c)) ?ns (v, q)"
  have v': "fst ?r = v \<union> set ?ns" by (rule visitNeighbors_visited)
  from visitNeighbors_queue [of "item_path c" ?ns v q]
  obtain new where q': "snd ?r = q @ new" and ids: "item_id ` set new = set ?ns - v"
    by blast
  have idq: "item_id ` set (snd ?r) = item_id ` set q \<union> (set ?ns - v)"
    using q' ids by (simp add: image_Un)
  have succ: "set ?ns = {y. (item_id c, y) \<in> edgeRel es}"
    using adj by (simp add: set_neighborsOf)
  from inv have sub: "item_id ` set (c # q) \<subseteq> v"
    and cl: "\<forall>x \<in> v. x \<in> item_id ` set (c # q)
        \<or> (x \<noteq> t \<and> (\<forall>y. (x, y) \<in> edgeRel es \<longrightarrow> y \<in> v))"
    unfolding bfsInv_def by blast+
  have "item_id ` set (snd ?r) \<subseteq> fst ?r" using sub idq v' by auto
  moreover have "\<forall>x \<in> fst ?r. x \<in> item_id ` set (snd ?r)
        \<or> (x \<noteq> t \<and> (\<forall>y. (x, y) \<in> edgeRel es \<longrightarrow> y \<in> fst ?r))"
  proof
    fix x assume "x \<in> fst ?r"
    then consider "x \<in> set ?ns - v" | "x \<in> v" using v' by auto
    then show "x \<in> item_id ` set (snd ?r)
        \<or> (x \<noteq> t \<and> (\<forall>y. (x, y) \<in> edgeRel es \<longrightarrow> y \<in> fst ?r))"
    proof cases
      case 1
      then show ?thesis using idq by simp
    next
      case 2
      with cl consider "x = item_id c" | "x \<in> item_id ` set q"
        | "x \<noteq> t \<and> (\<forall>y. (x, y) \<in> edgeRel es \<longrightarrow> y \<in> v)" by auto
      then show ?thesis
      proof cases
        case 1
        then show ?thesis using ne succ v' by auto
      next
        case 2
        then show ?thesis using idq by simp
      next
        case 3
        then show ?thesis using v' by auto
      qed
    qed
  qed
  ultimately show ?thesis by (simp only: bfsInv_def)
qed

lemma bfs_None_unreachable:
  "adj = buildAdjacency es \<Longrightarrow> bfsInv es t q v \<Longrightarrow> bfsLoop adj t q v = None \<Longrightarrow>
     \<forall>x \<in> v. (x, t) \<notin> (edgeRel es)\<^sup>*"
proof (induction adj t q v rule: bfsLoop.induct)
  case (1 adjacency toId visited)
  from "1.prems"(2) have cl: "\<forall>x \<in> visited. \<forall>y. (x, y) \<in> edgeRel es \<longrightarrow> y \<in> visited"
    and nt: "toId \<notin> visited"
    by (auto simp: bfsInv_def)
  show ?case
  proof
    fix x assume x: "x \<in> visited"
    show "(x, toId) \<notin> (edgeRel es)\<^sup>*"
    proof
      assume "(x, toId) \<in> (edgeRel es)\<^sup>*"
      from closed_rtrancl [OF cl this x] nt show False by simp
    qed
  qed
next
  case (2 adjacency toId current queue visited)
  let ?r = "fold (visitNeighbor (item_path current))
              (neighborsOf adjacency (item_id current)) (visited, queue)"
  from "2.prems"(3) have ne: "item_id current \<noteq> toId"
    by (auto simp: bfsLoop_step split: if_splits)
  then have none: "bfsLoop adjacency toId (snd ?r) (fst ?r) = None"
    using "2.prems"(3) by (simp add: bfsLoop_step)
  have inv: "bfsInv es toId (snd ?r) (fst ?r)"
    using bfsInv_step [OF "2.prems"(1,2) ne] .
  have "\<forall>x \<in> fst ?r. (x, toId) \<notin> (edgeRel es)\<^sup>*"
    using "2.IH" [OF ne refl prod.collapse "2.prems"(1) inv none] .
  moreover have "visited \<subseteq> fst ?r" by (simp add: visitNeighbors_visited)
  ultimately show ?case by blast
qed

lemma shortestPath_path:
  "shortestPath f t es = Some p \<Longrightarrow> pathFromTo es f t p"
  unfolding shortestPath_def
  by (rule bfs_sound [OF refl]) (simp_all add: pathFromTo_def)

lemma shortestPath_None:
  assumes "shortestPath f t es = None"
  shows "(f, t) \<notin> (edgeRel es)\<^sup>*"
proof -
  have "bfsInv es t [\<lparr>item_id = f, item_path = [f]\<rparr>] {f}" by (simp add: bfsInv_def)
  from bfs_None_unreachable [OF refl this assms [unfolded shortestPath_def]]
  show ?thesis by simp
qed

lemma shortestPath_self: "shortestPath a a es = Some [a]"
  by (simp add: shortestPath_def bfsLoop_step)

lemma isPath_butlast:
  "isPath es p \<Longrightarrow> 2 \<le> length p \<Longrightarrow>
     isPath es (butlast p) \<and> (last (butlast p), last p) \<in> edgeRel es"
proof (induction es p rule: isPath.induct)
  case (1 es)
  then show ?case by simp
next
  case (2 es a)
  then show ?case by simp
next
  case (3 es a b p)
  show ?case
  proof (cases p)
    case Nil
    then show ?thesis using "3.prems" by simp
  next
    case (Cons c p')
    then show ?thesis using "3.prems" "3.IH" by auto
  qed
qed

lemma pathFromTo_butlast:
  assumes "pathFromTo es f y p" and "2 \<le> length p"
  shows "pathFromTo es f (last (butlast p)) (butlast p)
       \<and> (last (butlast p), y) \<in> edgeRel es"
proof -
  from assms(1) have ip: "isPath es p" and hd: "hd p = f" and la: "last p = y"
    by (simp_all add: pathFromTo_def)
  from assms(2) obtain a b r where p: "p = a # b # r"
    by (cases p; cases "tl p") auto
  have "butlast p \<noteq> []" and "hd (butlast p) = f" using p hd by auto
  with isPath_butlast [OF ip assms(2)] la show ?thesis by (simp add: pathFromTo_def)
qed

lemma bfsMinInv_step:
  assumes adj: "adj = buildAdjacency es" and inv: "bfsMinInv es f (c # q) v"
  shows "bfsMinInv es f
           (snd (fold (visitNeighbor (item_path c)) (neighborsOf adj (item_id c)) (v, q)))
           (fst (fold (visitNeighbor (item_path c)) (neighborsOf adj (item_id c)) (v, q)))"
proof -
  let ?ns = "neighborsOf adj (item_id c)"
  let ?r = "fold (visitNeighbor (item_path c)) ?ns (v, q)"
  let ?len = "\<lambda>item. length (item_path item)"
  define L where "L = length (item_path c)"
  define q' where "q' = snd ?r"
  define v' where "v' = fst ?r"
  have v': "v' = v \<union> set ?ns" unfolding v'_def by (rule visitNeighbors_visited)
  from visitNeighbors_queue [of "item_path c" ?ns v q]
  obtain new where q': "q' = q @ new" and ids: "item_id ` set new = set ?ns - v"
    and paths: "\<forall>item \<in> set new. item_path item = item_path c @ [item_id item]"
    unfolding q'_def by blast
  have succ: "set ?ns = {y. (item_id c, y) \<in> edgeRel es}"
    using adj by (simp add: set_neighborsOf)
  from inv have m1: "\<forall>item \<in> set (c # q). pathFromTo es f (item_id item) (item_path item)"
    and m2: "sorted (map ?len (c # q))"
    and m3: "\<forall>i \<in> set (c # q). \<forall>j \<in> set (c # q). ?len i \<le> ?len j + 1"
    and m4: "item_id ` set (c # q) \<subseteq> v"
    and m5: "\<forall>x \<in> v. x \<in> item_id ` set (c # q) \<or> (\<forall>y. (x, y) \<in> edgeRel es \<longrightarrow> y \<in> v)"
    and m6: "\<forall>item \<in> set (c # q). \<forall>p'. pathFromTo es f (item_id item) p'
            \<longrightarrow> ?len item \<le> length p'"
    and m7: "\<forall>y p'. pathFromTo es f y p' \<longrightarrow> length p' \<le> L \<longrightarrow> y \<in> v"
    unfolding bfsMinInv_def L_def by simp_all
  have lo_q: "\<forall>item \<in> set q. L \<le> ?len item" using m2 by (simp add: L_def)
  have hi_q: "\<forall>item \<in> set q. ?len item \<le> L + 1" using m3 by (simp add: L_def)
  have len_new: "\<forall>item \<in> set new. ?len item = L + 1" using paths by (simp add: L_def)
  have lo_q': "\<forall>item \<in> set q'. L \<le> ?len item" using lo_q len_new q' by auto
  have hi_q': "\<forall>item \<in> set q'. ?len item \<le> L + 1" using hi_q len_new q' by auto
  have cur: "pathFromTo es f (item_id c) (item_path c)" using m1 by simp
  have n1: "\<forall>item \<in> set q'. pathFromTo es f (item_id item) (item_path item)"
  proof
    fix item assume "item \<in> set q'"
    then consider "item \<in> set q" | "item \<in> set new" using q' by auto
    then show "pathFromTo es f (item_id item) (item_path item)"
    proof cases
      case 1
      then show ?thesis using m1 by simp
    next
      case 2
      then have "item_id item \<in> set ?ns" using ids by blast
      then have "(item_id c, item_id item) \<in> edgeRel es" using succ by simp
      from pathFromTo_snoc [OF cur this] show ?thesis using paths 2 by simp
    qed
  qed
  have n2: "sorted (map ?len q')"
  proof -
    have "sorted (map ?len q)" using m2 by simp
    moreover have "sorted (map ?len new)"
      using len_new by (simp add: sorted_iff_nth_mono)
    moreover have "\<forall>x \<in> set (map ?len q). \<forall>y \<in> set (map ?len new). x \<le> y"
      using hi_q len_new by auto
    ultimately show ?thesis unfolding q' by (simp add: sorted_append)
  qed
  have n3: "\<forall>i \<in> set q'. \<forall>j \<in> set q'. ?len i \<le> ?len j + 1"
    using lo_q' hi_q' by (meson add_le_mono1 le_trans)
  have n4: "item_id ` set q' \<subseteq> v'" using m4 q' ids v' by auto
  have idq: "item_id ` set q' = item_id ` set q \<union> (set ?ns - v)"
    using q' ids by (simp add: image_Un)
  have n5: "\<forall>x \<in> v'. x \<in> item_id ` set q' \<or> (\<forall>y. (x, y) \<in> edgeRel es \<longrightarrow> y \<in> v')"
  proof
    fix x assume "x \<in> v'"
    then consider "x \<in> set ?ns - v" | "x \<in> v" using v' by auto
    then show "x \<in> item_id ` set q' \<or> (\<forall>y. (x, y) \<in> edgeRel es \<longrightarrow> y \<in> v')"
    proof cases
      case 1
      then show ?thesis using idq by simp
    next
      case 2
      with m5 consider "x = item_id c" | "x \<in> item_id ` set q"
        | "\<forall>y. (x, y) \<in> edgeRel es \<longrightarrow> y \<in> v" by auto
      then show ?thesis
      proof cases
        case 1
        then show ?thesis using succ v' by auto
      next
        case 2
        then show ?thesis using idq by simp
      next
        case 3
        then show ?thesis using v' by auto
      qed
    qed
  qed
  have n6: "\<forall>item \<in> set q'. \<forall>p'. pathFromTo es f (item_id item) p'
            \<longrightarrow> ?len item \<le> length p'"
  proof (intro ballI allI impI)
    fix item p' assume it: "item \<in> set q'" and p': "pathFromTo es f (item_id item) p'"
    from it consider "item \<in> set q" | "item \<in> set new" using q' by auto
    then show "?len item \<le> length p'"
    proof cases
      case 1
      then show ?thesis using m6 p' by simp
    next
      case 2
      then have "item_id item \<notin> v" using ids by blast
      with m7 p' have "\<not> length p' \<le> L" by blast
      then show ?thesis using len_new 2 by simp
    qed
  qed
  have n7: "\<forall>y p'. q' \<noteq> [] \<longrightarrow> pathFromTo es f y p'
            \<longrightarrow> length p' \<le> ?len (hd q') \<longrightarrow> y \<in> v'"
  proof (intro allI impI)
    fix y p' assume ne: "q' \<noteq> []" and p': "pathFromTo es f y p'"
      and le: "length p' \<le> ?len (hd q')"
    have hdq: "hd q' \<in> set q'" using ne by simp
    show "y \<in> v'"
    proof (cases "length p' \<le> L")
      case True
      then show ?thesis using m7 p' v' by blast
    next
      case False
      with le hi_q' hdq have lp: "length p' = L + 1" and hd_len: "?len (hd q') = L + 1"
        by (auto simp: le_antisym)
      have all_hi: "\<forall>item \<in> set q'. ?len item = L + 1"
      proof
        fix item assume it: "item \<in> set q'"
        have "?len (hd q') \<le> ?len item"
          using n2 ne it by (cases q') auto
        with hd_len hi_q' it show "?len item = L + 1" by (simp add: le_antisym)
      qed
      have "1 \<le> L" using cur by (cases "item_path c") (auto simp: L_def pathFromTo_def)
      then have two: "2 \<le> length p'" using lp by simp
      define z where "z = last (butlast p')"
      from pathFromTo_butlast [OF p' two]
      have pz: "pathFromTo es f z (butlast p')" and zy: "(z, y) \<in> edgeRel es"
        by (simp_all add: z_def)
      have lz: "length (butlast p') = L" using lp by simp
      then have "z \<in> v" using m7 pz by (metis le_refl)
      then have zv': "z \<in> v'" using v' by simp
      have "z \<notin> item_id ` set q'"
      proof
        assume "z \<in> item_id ` set q'"
        then obtain item where it: "item \<in> set q'" and "item_id item = z" by auto
        with n6 pz have "?len item \<le> length (butlast p')" by blast
        with all_hi it lz show False by simp
      qed
      with n5 zv' have "\<forall>y. (z, y) \<in> edgeRel es \<longrightarrow> y \<in> v'" by blast
      with zy show ?thesis by blast
    qed
  qed
  from n1 n2 n3 n4 n5 n6 n7 have "bfsMinInv es f q' v'"
    unfolding bfsMinInv_def by blast
  then show ?thesis by (simp only: q'_def v'_def)
qed

lemma bfs_minimal:
  "adj = buildAdjacency es \<Longrightarrow> bfsMinInv es f q v \<Longrightarrow> bfsLoop adj t q v = Some p \<Longrightarrow>
     \<forall>p'. pathFromTo es f t p' \<longrightarrow> length p \<le> length p'"
proof (induction adj t q v rule: bfsLoop.induct)
  case (1 adjacency toId visited)
  then show ?case by (simp add: bfsLoop.simps)
next
  case (2 adjacency toId current queue visited)
  show ?case
  proof (cases "item_id current = toId")
    case True
    then have "p = item_path current" using "2.prems"(3) by (simp add: bfsLoop_step)
    moreover from "2.prems"(2)
    have "\<forall>p'. pathFromTo es f (item_id current) p'
            \<longrightarrow> length (item_path current) \<le> length p'"
      unfolding bfsMinInv_def by simp
    ultimately show ?thesis using True by simp
  next
    case False
    let ?r = "fold (visitNeighbor (item_path current))
                (neighborsOf adjacency (item_id current)) (visited, queue)"
    have "bfsLoop adjacency toId (snd ?r) (fst ?r) = Some p"
      using "2.prems"(3) False by (simp add: bfsLoop_step)
    moreover have "bfsMinInv es f (snd ?r) (fst ?r)"
      using bfsMinInv_step [OF "2.prems"(1,2)] .
    ultimately show ?thesis
      using "2.IH" [OF False refl prod.collapse "2.prems"(1)] by blast
  qed
qed

lemma bfsMinInv_init: "bfsMinInv es f [\<lparr>item_id = f, item_path = [f]\<rparr>] {f}"
proof -
  have "\<forall>p'. pathFromTo es f f p' \<longrightarrow> Suc 0 \<le> length p'"
    by (auto simp: pathFromTo_def Suc_le_eq)
  moreover have "\<forall>y p'. pathFromTo es f y p' \<longrightarrow> length p' \<le> Suc 0 \<longrightarrow> y = f"
  proof (intro allI impI)
    fix y p' assume "pathFromTo es f y p'" and "length p' \<le> Suc 0"
    then show "y = f" by (cases p') (auto simp: pathFromTo_def)
  qed
  ultimately show ?thesis by (simp add: bfsMinInv_def pathFromTo_def)
qed

lemma shortestPath_minimal:
  assumes "shortestPath f t es = Some p" and "pathFromTo es f t p'"
  shows "length p \<le> length p'"
proof -
  from assms(1)
  have "bfsLoop (buildAdjacency es) t [\<lparr>item_id = f, item_path = [f]\<rparr>] {f} = Some p"
    by (simp only: shortestPath_def)
  from bfs_minimal [OF refl bfsMinInv_init this] assms(2) show ?thesis by blast
qed

lemma chain_path_unique:
  assumes rel: "edgeRel es = {(a, b), (b, c)}" and d: "distinct [a, b, c]"
    and p: "pathFromTo es a c p"
  shows "p = [a, b, c]"
proof -
  from p have ne: "p \<noteq> []" and hd: "hd p = a" and la: "last p = c" and ip: "isPath es p"
    by (simp_all add: pathFromTo_def)
  from d have abc: "a \<noteq> b" "a \<noteq> c" "b \<noteq> c" by auto
  from ne hd obtain r1 where p1: "p = a # r1" by (cases p) auto
  with la abc have "r1 \<noteq> []" by auto
  then obtain y r2 where r1: "r1 = y # r2" by (cases r1) auto
  from ip p1 r1 have "(a, y) \<in> edgeRel es" and ip2: "isPath es (y # r2)" by simp_all
  with rel abc have y: "y = b" by auto
  from la p1 r1 y abc have "r2 \<noteq> []" by auto
  then obtain z r3 where r2: "r2 = z # r3" by (cases r2) auto
  from ip2 r2 y have "(b, z) \<in> edgeRel es" and ip3: "isPath es (z # r3)" by simp_all
  with rel abc have z: "z = c" by auto
  have "r3 = []"
  proof (cases r3)
    case Nil
    then show ?thesis .
  next
    case (Cons u r4)
    with ip3 z have "(c, u) \<in> edgeRel es" by simp
    with rel abc show ?thesis by auto
  qed
  with p1 r1 r2 y z show ?thesis by simp
qed

lemma shortestPath_chain:
  assumes rel: "edgeRel es = {(a, b), (b, c)}" and d: "distinct [a, b, c]"
  shows "shortestPath a c es = Some [a, b, c]"
proof (cases "shortestPath a c es")
  case None
  have "(a, b) \<in> edgeRel es" and "(b, c) \<in> edgeRel es" using rel by simp_all
  then have "(a, c) \<in> (edgeRel es)\<^sup>*"
    by (meson rtrancl.rtrancl_into_rtrancl rtrancl.rtrancl_refl)
  with shortestPath_None [OF None] show ?thesis by simp
next
  case (Some p)
  from chain_path_unique [OF rel d shortestPath_path [OF Some]] Some show ?thesis by simp
qed

lemma chain_reachable:
  "(''A'', ''C'') \<in> (edgeRel chainEdges)\<^sup>*"
proof -
  have "(''A'', ''B'') \<in> edgeRel chainEdges" and "(''B'', ''C'') \<in> edgeRel chainEdges"
    by (simp_all add: edgeRel_def chainEdges_def)
  then show ?thesis by (meson rtrancl.rtrancl_into_rtrancl rtrancl.rtrancl_refl)
qed

lemma chain_unreachable:
  "(''D'', ''A'') \<notin> (edgeRel chainEdges)\<^sup>*"
proof
  assume "(''D'', ''A'') \<in> (edgeRel chainEdges)\<^sup>*"
  then show False
    by (rule converse_rtranclE) (auto simp: edgeRel_def chainEdges_def)
qed

text \<open>
  C8. \<open>shortestPath\<close> searches breadth-first along the edges in their direction and returns
  the ids on a path from \<open>fromId\<close> to \<open>toId\<close>, both included: from a node to itself the
  path is that node alone; over the two edges of a chain of three different nodes the
  path from the first to the last is the three nodes in order, whatever the order and
  the kinds of the edges in the list; when \<open>toId\<close> cannot be
  reached from \<open>fromId\<close> the result is \<open>null\<close>; and when it can, the loop ends with a path
  that follows edges from \<open>fromId\<close> to \<open>toId\<close> and that no other such path is shorter than.
\<close>

theorem shortestPath_bfs:
  "shortestPath a a es = Some [a]
   \<and> (edgeRel es' = {(a, b), (b, c)} \<and> distinct [a, b, c] \<longrightarrow>
        shortestPath a c es' = Some [a, b, c])
   \<and> ((f, t) \<notin> (edgeRel es)\<^sup>* \<longrightarrow> shortestPath f t es = None)
   \<and> ((f, t) \<in> (edgeRel es)\<^sup>* \<longrightarrow>
        (\<exists>p. shortestPath f t es = Some p \<and> pathFromTo es f t p
           \<and> (\<forall>p'. pathFromTo es f t p' \<longrightarrow> length p \<le> length p')))"
proof (intro conjI impI)
  show "shortestPath a a es = Some [a]" by (rule shortestPath_self)
next
  assume "edgeRel es' = {(a, b), (b, c)} \<and> distinct [a, b, c]"
  then show "shortestPath a c es' = Some [a, b, c]"
    by (simp add: shortestPath_chain)
next
  assume un: "(f, t) \<notin> (edgeRel es)\<^sup>*"
  show "shortestPath f t es = None"
  proof (cases "shortestPath f t es")
    case None
    then show ?thesis .
  next
    case (Some p)
    from pathFromTo_rtrancl [OF shortestPath_path [OF Some]] un show ?thesis by simp
  qed
next
  assume re: "(f, t) \<in> (edgeRel es)\<^sup>*"
  show "\<exists>p. shortestPath f t es = Some p \<and> pathFromTo es f t p
           \<and> (\<forall>p'. pathFromTo es f t p' \<longrightarrow> length p \<le> length p')"
  proof (cases "shortestPath f t es")
    case None
    from shortestPath_None [OF None] re show ?thesis by simp
  next
    case (Some p)
    have "pathFromTo es f t p" using Some by (rule shortestPath_path)
    moreover have "\<forall>p'. pathFromTo es f t p' \<longrightarrow> length p \<le> length p'"
      using shortestPath_minimal [OF Some] by blast
    ultimately show ?thesis using Some by blast
  qed
qed

lemma chain_edgeRel: "edgeRel chainEdges = {(''A'', ''B''), (''B'', ''C'')}"
  by (auto simp: edgeRel_def chainEdges_def)

theorem shortestPath_bfs_witness:
  "edgeRel chainEdges = {(''A'', ''B''), (''B'', ''C'')}
   \<and> distinct [''A'', ''B'', ''C'']
   \<and> shortestPath ''A'' ''C'' chainEdges = Some [''A'', ''B'', ''C'']
   \<and> shortestPath ''A'' ''A'' chainEdges = Some [''A'']
   \<and> (''D'', ''A'') \<notin> (edgeRel chainEdges)\<^sup>*
   \<and> shortestPath ''D'' ''A'' chainEdges = None
   \<and> (''A'', ''C'') \<in> (edgeRel chainEdges)\<^sup>*
   \<and> (\<exists>p. shortestPath ''A'' ''C'' chainEdges = Some p \<and> pathFromTo chainEdges ''A'' ''C'' p)"
proof -
  have d: "distinct [''A'', ''B'', ''C'']" by simp
  note t1 = shortestPath_bfs [of "''A''" chainEdges chainEdges "''B''" "''C''" "''D''" "''A''"]
  note t2 = shortestPath_bfs [of "''A''" chainEdges chainEdges "''B''" "''C''" "''A''" "''C''"]
  from t1 chain_edgeRel d
  have c1: "shortestPath ''A'' ''C'' chainEdges = Some [''A'', ''B'', ''C'']" by blast
  from t1 have c2: "shortestPath ''A'' ''A'' chainEdges = Some [''A'']" by blast
  from t1 chain_unreachable have c3: "shortestPath ''D'' ''A'' chainEdges = None" by blast
  from t2 chain_reachable
  have c4: "\<exists>p. shortestPath ''A'' ''C'' chainEdges = Some p
      \<and> pathFromTo chainEdges ''A'' ''C'' p"
    by blast
  from chain_edgeRel d c1 c2 chain_unreachable c3 chain_reachable c4
  show ?thesis by (intro conjI)
qed

section \<open>The repulsion step\<close>



lemma fold_concat_map:
  "fold f (concat (map g xs)) a = fold (\<lambda>x. fold f (g x)) xs a"
  by (induction xs arbitrary: a) simp_all

lemma repelAll_pairs:
  "repelAll m p arr = fold (\<lambda>(i, j). repelPair m p i j) (indexPairs (length arr)) arr"
  by (simp add: repelAll_def indexPairs_def fold_concat_map fold_map comp_def)













section \<open>An init message with a missing field\<close>

lemma initNode_keys:
  "fst ` set (w_nodes (fold (initNode m rnd) nds w)) = fst ` set (w_nodes w) \<union> nd_id ` set nds"
proof (induction nds arbitrary: w)
  case Nil
  then show ?case by simp
next
  case (Cons n nds)
  have "fst ` set (w_nodes (initNode m rnd n w)) = insert (nd_id n) (fst ` set (w_nodes w))"
    by (simp add: initNode_def Let_def dom_update)
  then show ?case using Cons.IH [of "initNode m rnd n w"] by auto
qed

lemma initNode_fields:
  "isRunning (fold (initNode m rnd) nds w) = isRunning w
   \<and> timers (fold (initNode m rnd) nds w) = timers w
   \<and> posted (fold (initNode m rnd) nds w) = posted w
   \<and> w_edges (fold (initNode m rnd) nds w) = w_edges w"
  by (induction nds arbitrary: w) (simp_all add: initNode_def Let_def)

lemma length_repelPair: "length (repelPair m p i j arr) = length arr"
  by (simp add: repelPair_def Let_def)

lemma length_fold_repelPair:
  "length (fold (\<lambda>(i, j). repelPair m p i j) ps arr) = length arr"
  by (induction ps arbitrary: arr) (auto simp: length_repelPair)

lemma length_repelAll: "length (repelAll m p arr) = length arr"
  by (simp add: repelAll_pairs length_fold_repelPair)

lemma applyRepulsion_keys: "map fst (w_nodes (applyRepulsion m w)) = map fst (w_nodes w)"
  by (simp add: applyRepulsion_def length_repelAll)

lemma loop_without_edges:
  assumes "w_edges w = None" and "isRunning w"
  shows "fst (loop m w) = Some TypeError
       \<and> map fst (w_nodes (snd (loop m w))) = map fst (w_nodes w)
       \<and> isRunning (snd (loop m w))
       \<and> w_edges (snd (loop m w)) = None
       \<and> timers (snd (loop m w)) = timers w
       \<and> posted (snd (loop m w)) = posted w"
proof -
  have "loop m w = (Some TypeError, applyRepulsion m w)"
    using assms
    by (simp add: loop_def simulationStep_def applyAttraction_def applyRepulsion_def)
  moreover have "isRunning (applyRepulsion m w)" "w_edges (applyRepulsion m w) = None"
    "timers (applyRepulsion m w) = timers w" "posted (applyRepulsion m w) = posted w"
    using assms by (simp_all add: applyRepulsion_def)
  ultimately show ?thesis by (simp add: applyRepulsion_keys)
qed

lemma timerFired_without_edges:
  assumes "w_edges w = None" and "isRunning w" and "0 < timers w"
  shows "fst (timerFired m w) = Some TypeError
       \<and> posted (snd (timerFired m w)) = posted w
       \<and> timers (snd (timerFired m w)) = timers w - 1"
proof -
  let ?w1 = "w\<lparr>timers := timers w - 1\<rparr>"
  have "timerFired m w = loop m ?w1"
    using assms by (simp add: timerFired_def Let_def)
  moreover have "w_edges ?w1 = None" and "isRunning ?w1" using assms by simp_all
  from loop_without_edges [OF this, of m]
  have "fst (loop m ?w1) = Some TypeError" and "posted (snd (loop m ?w1)) = posted w"
    and "timers (snd (loop m ?w1)) = timers w - 1"
    by simp_all
  ultimately show ?thesis by simp
qed

lemma init_without_nodes:
  assumes "data_nodes d = None"
  shows "fst (onmessage m rnd (Init (Some d)) w) = Some TypeError
       \<and> w_nodes (snd (onmessage m rnd (Init (Some d)) w)) = []
       \<and> isRunning (snd (onmessage m rnd (Init (Some d)) w)) = isRunning w
       \<and> timers (snd (onmessage m rnd (Init (Some d)) w)) = timers w
       \<and> posted (snd (onmessage m rnd (Init (Some d)) w)) = posted w"
  using assms by (simp add: onmessage_def initGraph_def Let_def split: option.splits)

lemma initGraph_without_edges:
  assumes "data_nodes d = Some nds" and "data_edges d = None"
  shows "fst (initGraph m rnd (Some d) w) = None
       \<and> fst ` set (w_nodes (snd (initGraph m rnd (Some d) w))) = nd_id ` set nds
       \<and> w_edges (snd (initGraph m rnd (Some d) w)) = None
       \<and> isRunning (snd (initGraph m rnd (Some d) w)) = isRunning w
       \<and> timers (snd (initGraph m rnd (Some d) w)) = timers w
       \<and> posted (snd (initGraph m rnd (Some d) w)) = posted w"
proof -
  define w3 where "w3 = (case data_params d of
        None \<Rightarrow> w\<lparr>w_nodes := [], w_edges := None\<rparr>
      | Some u \<Rightarrow> w\<lparr>w_nodes := [], w_edges := None,
                    w_params := mergeParams (w_params w) u\<rparr>)"
  have w3: "w_nodes w3 = []" "w_edges w3 = None" "isRunning w3 = isRunning w"
    "timers w3 = timers w" "posted w3 = posted w"
    by (simp_all add: w3_def split: option.splits)
  have ig: "initGraph m rnd (Some d) w = (None, fold (initNode m rnd) nds w3)"
    using assms by (simp add: initGraph_def Let_def w3_def split: option.splits)
  show ?thesis
    using initNode_fields [of m rnd nds w3] initNode_keys [of m rnd nds w3] w3
    by (simp add: ig)
qed

lemma init_without_edges:
  assumes "data_nodes d = Some nds" and "data_edges d = None" and "\<not> isRunning w"
  shows "fst (onmessage m rnd (Init (Some d)) w) = Some TypeError
       \<and> fst ` set (w_nodes (snd (onmessage m rnd (Init (Some d)) w))) = nd_id ` set nds
       \<and> w_edges (snd (onmessage m rnd (Init (Some d)) w)) = None
       \<and> isRunning (snd (onmessage m rnd (Init (Some d)) w))
       \<and> timers (snd (onmessage m rnd (Init (Some d)) w)) = timers w
       \<and> posted (snd (onmessage m rnd (Init (Some d)) w)) = posted w"
proof -
  define w4 where "w4 = snd (initGraph m rnd (Some d) w)"
  from initGraph_without_edges [OF assms(1,2), of m rnd w]
  have ig: "initGraph m rnd (Some d) w = (None, w4)"
    and keys: "fst ` set (w_nodes w4) = nd_id ` set nds"
    and w4: "w_edges w4 = None" "\<not> isRunning w4" "timers w4 = timers w" "posted w4 = posted w"
    using assms(3) by (simp_all add: w4_def prod_eq_iff)
  let ?w5 = "w4\<lparr>isRunning := True\<rparr>"
  have om: "onmessage m rnd (Init (Some d)) w = loop m ?w5"
    using ig w4 by (simp add: onmessage_def startSimulation_def)
  have "w_edges ?w5 = None" and "isRunning ?w5" using w4 by simp_all
  from loop_without_edges [OF this, of m]
  have l: "fst (loop m ?w5) = Some TypeError"
    "map fst (w_nodes (snd (loop m ?w5))) = map fst (w_nodes w4)"
    "isRunning (snd (loop m ?w5))" "w_edges (snd (loop m ?w5)) = None"
    "timers (snd (loop m ?w5)) = timers w" "posted (snd (loop m ?w5)) = posted w"
    using w4 by simp_all
  from l(2) have "set (map fst (w_nodes (snd (loop m ?w5)))) = set (map fst (w_nodes w4))"
    by simp
  then have "fst ` set (w_nodes (snd (loop m ?w5))) = nd_id ` set nds"
    using keys by simp
  then show ?thesis using l by (simp add: om)
qed

lemma init_without_edges_running:
  assumes "data_nodes d = Some nds" and "data_edges d = None" and "isRunning w"
  shows "fst (onmessage m rnd (Init (Some d)) w) = None
       \<and> fst ` set (w_nodes (snd (onmessage m rnd (Init (Some d)) w))) = nd_id ` set nds
       \<and> w_edges (snd (onmessage m rnd (Init (Some d)) w)) = None
       \<and> isRunning (snd (onmessage m rnd (Init (Some d)) w))
       \<and> timers (snd (onmessage m rnd (Init (Some d)) w)) = timers w
       \<and> posted (snd (onmessage m rnd (Init (Some d)) w)) = posted w"
proof -
  define w4 where "w4 = snd (initGraph m rnd (Some d) w)"
  from initGraph_without_edges [OF assms(1,2), of m rnd w]
  have ig: "initGraph m rnd (Some d) w = (None, w4)"
    and keys: "fst ` set (w_nodes w4) = nd_id ` set nds"
    and w4: "w_edges w4 = None" "isRunning w4" "timers w4 = timers w" "posted w4 = posted w"
    using assms(3) by (simp_all add: w4_def prod_eq_iff)
  have "onmessage m rnd (Init (Some d)) w = (None, w4)"
    using ig w4 by (simp add: onmessage_def startSimulation_def)
  then show ?thesis using keys w4 by simp
qed

text \<open>
  C6, as stated: an \<open>init\<close> message whose payload lacks \<open>nodes\<close> or \<open>edges\<close> empties the node
  set, leaves the simulation idle and lets no exception out of the handler. In a new
  worker both payloads make the handler throw a \<open>TypeError\<close>, and the one without \<open>edges\<close>
  leaves a node in the map and the worker marked as running.
\<close>

theorem init_missing_field_counterexample:
  "fst (onmessage realMath (\<lambda>k. 0) (Init (Some payloadWithoutNodes)) (newWorker realMath))
     = Some TypeError
   \<and> fst (onmessage realMath (\<lambda>k. 0) (Init (Some payloadWithoutEdges)) (newWorker realMath))
       = Some TypeError
   \<and> fst ` set (w_nodes (snd (onmessage realMath (\<lambda>k. 0) (Init (Some payloadWithoutEdges))
        (newWorker realMath)))) = {''n''}
   \<and> isRunning (snd (onmessage realMath (\<lambda>k. 0) (Init (Some payloadWithoutEdges))
        (newWorker realMath)))"
proof -
  have "data_nodes (payloadWithoutNodes :: real init_data) = None"
    by (simp add: payloadWithoutNodes_def)
  from init_without_nodes [OF this, of realMath "\<lambda>k. 0" "newWorker realMath"]
  have a: "fst (onmessage realMath (\<lambda>k. 0) (Init (Some payloadWithoutNodes))
      (newWorker realMath)) = Some TypeError"
    by (rule conjunct1)
  have "data_nodes (payloadWithoutEdges :: real init_data)
      = Some [\<lparr>nd_id = ''n'', nd_type = Main\<rparr>]"
    and "data_edges (payloadWithoutEdges :: real init_data) = None"
    and "\<not> isRunning (newWorker realMath)"
    by (simp_all add: payloadWithoutEdges_def newWorker_def)
  from init_without_edges [OF this, of realMath "\<lambda>k. 0"] a show ?thesis by simp
qed

text \<open>
  C6, amended: when the worker receives an \<open>init\<close> message whose payload lacks \<open>nodes\<close>, the
  node set becomes empty and the message neither starts nor stops the simulation, but a
  \<open>TypeError\<close> escapes the handler. When the payload has \<open>nodes\<close> and lacks \<open>edges\<close>, the
  nodes of the payload are seeded, whether the worker was idle or running. If it was
  idle, it is marked as running and a \<open>TypeError\<close> escapes the handler from the first
  step, with no tick scheduled and no positions posted. If it was running, the handler
  returns, the worker stays marked as running, nothing is scheduled or posted, and the
  next run of the loop, which is what a pending tick calls, throws a \<open>TypeError\<close> before
  it posts positions.
\<close>

theorem init_missing_field:
  "(data_nodes d = None \<longrightarrow>
      fst (onmessage m rnd (Init (Some d)) w) = Some TypeError
      \<and> w_nodes (snd (onmessage m rnd (Init (Some d)) w)) = []
      \<and> isRunning (snd (onmessage m rnd (Init (Some d)) w)) = isRunning w
      \<and> timers (snd (onmessage m rnd (Init (Some d)) w)) = timers w
      \<and> posted (snd (onmessage m rnd (Init (Some d)) w)) = posted w)
   \<and> (data_nodes d' = Some nds \<and> data_edges d' = None \<and> \<not> isRunning w \<longrightarrow>
      fst (onmessage m rnd (Init (Some d')) w) = Some TypeError
      \<and> fst ` set (w_nodes (snd (onmessage m rnd (Init (Some d')) w))) = nd_id ` set nds
      \<and> isRunning (snd (onmessage m rnd (Init (Some d')) w))
      \<and> timers (snd (onmessage m rnd (Init (Some d')) w)) = timers w
      \<and> posted (snd (onmessage m rnd (Init (Some d')) w)) = posted w)
   \<and> (data_nodes d' = Some nds \<and> data_edges d' = None \<and> isRunning w \<longrightarrow>
      fst (onmessage m rnd (Init (Some d')) w) = None
      \<and> fst ` set (w_nodes (snd (onmessage m rnd (Init (Some d')) w))) = nd_id ` set nds
      \<and> isRunning (snd (onmessage m rnd (Init (Some d')) w))
      \<and> timers (snd (onmessage m rnd (Init (Some d')) w)) = timers w
      \<and> posted (snd (onmessage m rnd (Init (Some d')) w)) = posted w
      \<and> fst (loop m (snd (onmessage m rnd (Init (Some d')) w))) = Some TypeError
      \<and> posted (snd (loop m (snd (onmessage m rnd (Init (Some d')) w)))) = posted w
      \<and> (0 < timers w \<longrightarrow>
           fst (timerFired m (snd (onmessage m rnd (Init (Some d')) w))) = Some TypeError
           \<and> posted (snd (timerFired m (snd (onmessage m rnd (Init (Some d')) w))))
               = posted w))"
proof (intro conjI impI)
  assume "data_nodes d = None"
  from init_without_nodes [OF this, of m rnd w]
  show "fst (onmessage m rnd (Init (Some d)) w) = Some TypeError"
    and "w_nodes (snd (onmessage m rnd (Init (Some d)) w)) = []"
    and "isRunning (snd (onmessage m rnd (Init (Some d)) w)) = isRunning w"
    and "timers (snd (onmessage m rnd (Init (Some d)) w)) = timers w"
    and "posted (snd (onmessage m rnd (Init (Some d)) w)) = posted w"
    by simp_all
next
  assume a: "data_nodes d' = Some nds \<and> data_edges d' = None \<and> \<not> isRunning w"
  then have "data_nodes d' = Some nds" and "data_edges d' = None" and "\<not> isRunning w"
    by simp_all
  from init_without_edges [OF this, of m rnd]
  show "fst (onmessage m rnd (Init (Some d')) w) = Some TypeError"
    and "fst ` set (w_nodes (snd (onmessage m rnd (Init (Some d')) w))) = nd_id ` set nds"
    and "isRunning (snd (onmessage m rnd (Init (Some d')) w))"
    and "timers (snd (onmessage m rnd (Init (Some d')) w)) = timers w"
    and "posted (snd (onmessage m rnd (Init (Some d')) w)) = posted w"
    by simp_all
next
  assume a: "data_nodes d' = Some nds \<and> data_edges d' = None \<and> isRunning w"
  then have "data_nodes d' = Some nds" and "data_edges d' = None" and "isRunning w"
    by simp_all
  from init_without_edges_running [OF this, of m rnd]
  have r: "fst (onmessage m rnd (Init (Some d')) w) = None"
    "fst ` set (w_nodes (snd (onmessage m rnd (Init (Some d')) w))) = nd_id ` set nds"
    "w_edges (snd (onmessage m rnd (Init (Some d')) w)) = None"
    "isRunning (snd (onmessage m rnd (Init (Some d')) w))"
    "timers (snd (onmessage m rnd (Init (Some d')) w)) = timers w"
    "posted (snd (onmessage m rnd (Init (Some d')) w)) = posted w"
    by simp_all
  from r
  show "fst (onmessage m rnd (Init (Some d')) w) = None"
    and "fst ` set (w_nodes (snd (onmessage m rnd (Init (Some d')) w))) = nd_id ` set nds"
    and "isRunning (snd (onmessage m rnd (Init (Some d')) w))"
    and "timers (snd (onmessage m rnd (Init (Some d')) w)) = timers w"
    and "posted (snd (onmessage m rnd (Init (Some d')) w)) = posted w"
    by simp_all
  from loop_without_edges [OF r(3) r(4), of m] r(6)
  show "fst (loop m (snd (onmessage m rnd (Init (Some d')) w))) = Some TypeError"
    and "posted (snd (loop m (snd (onmessage m rnd (Init (Some d')) w)))) = posted w"
    by simp_all
  {
    assume "0 < timers w"
    then have "0 < timers (snd (onmessage m rnd (Init (Some d')) w))" using r(5) by simp
    from timerFired_without_edges [OF r(3) r(4) this, of m] r(6)
    show "fst (timerFired m (snd (onmessage m rnd (Init (Some d')) w))) = Some TypeError"
      and "posted (snd (timerFired m (snd (onmessage m rnd (Init (Some d')) w)))) = posted w"
      by simp_all
  }
qed

theorem init_missing_field_witness:
  "data_nodes (payloadWithoutNodes :: real init_data) = None
   \<and> fst (onmessage realMath (\<lambda>k. 0) (Init (Some payloadWithoutNodes)) (newWorker realMath))
       = Some TypeError
   \<and> w_nodes (snd (onmessage realMath (\<lambda>k. 0) (Init (Some payloadWithoutNodes))
        (newWorker realMath))) = []
   \<and> data_nodes (payloadWithoutEdges :: real init_data)
       = Some [\<lparr>nd_id = ''n'', nd_type = Main\<rparr>]
   \<and> data_edges (payloadWithoutEdges :: real init_data) = None
   \<and> isRunning (newWorker realMath) = False
   \<and> fst (onmessage realMath (\<lambda>k. 0) (Init (Some payloadWithoutEdges)) (newWorker realMath))
       = Some TypeError
   \<and> isRunning (snd (onmessage realMath (\<lambda>k. 0) (Init (Some payloadWithoutEdges))
        (newWorker realMath))) = True
   \<and> isRunning (newWorker realMath\<lparr>isRunning := True, timers := 1\<rparr>) = True
   \<and> 0 < timers (newWorker realMath\<lparr>isRunning := True, timers := 1\<rparr>)
   \<and> fst (onmessage realMath (\<lambda>k. 0) (Init (Some payloadWithoutEdges))
        (newWorker realMath\<lparr>isRunning := True, timers := 1\<rparr>)) = None
   \<and> fst ` set (w_nodes (snd (onmessage realMath (\<lambda>k. 0) (Init (Some payloadWithoutEdges))
        (newWorker realMath\<lparr>isRunning := True, timers := 1\<rparr>)))) = {''n''}
   \<and> fst (timerFired realMath (snd (onmessage realMath (\<lambda>k. 0)
        (Init (Some payloadWithoutEdges))
        (newWorker realMath\<lparr>isRunning := True, timers := 1\<rparr>)))) = Some TypeError"
proof -
  have h1: "data_nodes (payloadWithoutNodes :: real init_data) = None"
    by (simp add: payloadWithoutNodes_def)
  have h2: "data_nodes (payloadWithoutEdges :: real init_data)
      = Some [\<lparr>nd_id = ''n'', nd_type = Main\<rparr>]"
    and h3: "data_edges (payloadWithoutEdges :: real init_data) = None"
    by (simp_all add: payloadWithoutEdges_def)
  have h4: "isRunning (newWorker realMath) = False" by (simp add: newWorker_def)
  have h5: "isRunning (newWorker realMath\<lparr>isRunning := True, timers := 1\<rparr>) = True"
    and h6: "0 < timers (newWorker realMath\<lparr>isRunning := True, timers := 1\<rparr>)"
    by simp_all
  note t1 = init_missing_field [of payloadWithoutNodes realMath "\<lambda>k. 0" "newWorker realMath"
      payloadWithoutEdges "[\<lparr>nd_id = ''n'', nd_type = Main\<rparr>]"]
  note t2 = init_missing_field [of payloadWithoutNodes realMath "\<lambda>k. 0"
      "newWorker realMath\<lparr>isRunning := True, timers := 1\<rparr>" payloadWithoutEdges
      "[\<lparr>nd_id = ''n'', nd_type = Main\<rparr>]"]
  from t1 h1
  have c1: "fst (onmessage realMath (\<lambda>k. 0) (Init (Some payloadWithoutNodes))
        (newWorker realMath)) = Some TypeError"
    and c2: "w_nodes (snd (onmessage realMath (\<lambda>k. 0) (Init (Some payloadWithoutNodes))
        (newWorker realMath))) = []"
    by blast+
  from t1 h2 h3 h4
  have c3: "fst (onmessage realMath (\<lambda>k. 0) (Init (Some payloadWithoutEdges))
        (newWorker realMath)) = Some TypeError"
    and c4: "isRunning (snd (onmessage realMath (\<lambda>k. 0) (Init (Some payloadWithoutEdges))
        (newWorker realMath))) = True"
    by simp_all
  from t2 h2 h3 h5 h6
  have c5: "fst (onmessage realMath (\<lambda>k. 0) (Init (Some payloadWithoutEdges))
        (newWorker realMath\<lparr>isRunning := True, timers := 1\<rparr>)) = None"
    and c6: "fst ` set (w_nodes (snd (onmessage realMath (\<lambda>k. 0)
        (Init (Some payloadWithoutEdges))
        (newWorker realMath\<lparr>isRunning := True, timers := 1\<rparr>)))) = {''n''}"
    and c7: "fst (timerFired realMath (snd (onmessage realMath (\<lambda>k. 0)
        (Init (Some payloadWithoutEdges))
        (newWorker realMath\<lparr>isRunning := True, timers := 1\<rparr>)))) = Some TypeError"
    by simp_all
  from h1 c1 c2 h2 h3 h4 c3 c4 h5 h6 c5 c6 c7 show ?thesis by (intro conjI)
qed
section \<open>Node classification\<close>

text \<open>
  C4. The claim gives the thresholds of the view's legend: a node is main from degree 2
  on, secondary at degree 1, isolated at degree 0. The mapping in \<open>loadGraph\<close> uses 3 as
  the threshold for main, so a node of degree 2 is classified secondary.
\<close>

theorem nodeDataType_degree_two:
  "nodeDataType 2 = Secondary \<and> nodeDataType 2 \<noteq> Main"
  by (simp add: nodeDataType_def)

end
